theory Spec2Isabelle
  imports Complex_Main "HOL-Library.AList"
begin

section \<open>Data model of \<open>src/server.js\<close>\<close>

text \<open>
  The server keeps, per monitor, a mutable object whose fields the probe routine
  \<open>checkOnce\<close> overwrites, and a bounded array of history points. JavaScript's
  \<open>null\<close> is \<open>None\<close>. Status codes, clock readings (\<open>Date.now()\<close>, milliseconds)
  and latencies are integers; the two counters are natural numbers, as every writer
  of the source stores \<open>0\<close> or a successor there.
\<close>

definition DEFAULT_INTERVAL_MS :: rat where
  "DEFAULT_INTERVAL_MS = 5000"

definition MAX_RETRIES :: nat where
  "MAX_RETRIES = 3"

definition RETRY_DELAY_MS :: nat where
  "RETRY_DELAY_MS = 1000"

text \<open>
  A JavaScript number as far as the interval handling can tell numbers apart: the
  result of \<open>Number(x)\<close> is \<open>NaN\<close>, an infinity or a finite value. Finite values are
  rationals here; the comparisons the source makes on them are exact.
\<close>

datatype jsnum = NaN | PosInf | NegInf | Fin rat

text \<open>
  A JavaScript string is the sequence of its UTF-16 code units; \<open>ascii\<close> gives the
  string of an ASCII literal. Ids and error messages are only compared and copied, and
  stay plain strings.
\<close>

type_synonym jsstring = "nat list"

definition ascii :: "string \<Rightarrow> jsstring" where
  "ascii cs = map of_char cs"

text \<open>The point object literal of \<open>checkOnce\<close> (fields \<open>t, up, status, ms, attempt, forced, error\<close>).\<close>

record point =
  t :: int
  up :: bool
  status :: int
  ms :: int
  attempt :: nat
  forced :: bool
  error :: "string option"

text \<open>
  The monitor object. The field \<open>forceCheck\<close> of the source is written \<open>false\<close> at
  creation and never read, so it is left out; \<open>id\<close> is called \<open>mon_id\<close>.
\<close>

record monitor =
  mon_id :: string
  name :: "jsstring option"
  url :: jsstring
  intervalMs :: jsnum
  history :: "point list"
  lastStatus :: "int option"
  lastLatency :: "int option"
  lastChecked :: "int option"
  enabled :: bool
  retryCount :: nat
  lastError :: "string option"
  consecutiveFailures :: nat

text \<open>The alert object literal of \<open>triggerAlert\<close>.\<close>

record alert =
  monitorId :: string
  monitorName :: jsstring
  alertUrl :: jsstring
  timestamp :: int
  wasUp :: bool
  nowUp :: bool
  alertError :: "string option"
  alertStatus :: "int option"
  latency :: "int option"

section \<open>The probe routine \<open>checkOnce\<close>\<close>

text \<open>
  What the outside world contributes to one attempt of the retry loop: how
  \<open>axios.get\<close> settles (a response with its status, since \<open>validateStatus\<close> accepts
  every status, or a thrown transport error with its message), and the readings of
  \<open>Date.now()\<close> taken for the latency, for the point's \<open>t\<close> and for the alert's
  \<open>timestamp\<close>. The request's timeout only bears on which of the two the world
  delivers.
\<close>

datatype outcome = Response int | Thrown string

record attempt_io =
  result :: outcome
  now_latency :: int
  now_point :: int
  now_alert :: int

text \<open>
  The state a check threads through its attempts: the monitor object, and the two
  effects of the routine that leave the object, in the order they happen: the points
  handed to \<open>monitor.history.push\<close> and the alerts handed to the alert callbacks.
\<close>

record run =
  mon :: monitor
  pushed :: "point list"
  alerts :: "alert list"

text \<open>\<open>ToNumber\<close> on a status that may be \<open>null\<close>: relational operators read \<open>null\<close> as 0.\<close>

definition toNumber :: "int option \<Rightarrow> int" where
  "toNumber v = (case v of None \<Rightarrow> 0 | Some n \<Rightarrow> n)"

text \<open>\<open>s >= 200 && s < 400\<close>, on a response status and on \<open>monitor.lastStatus\<close>.\<close>

definition isUpStatus :: "int \<Rightarrow> bool" where
  "isUpStatus s = (s \<ge> 200 \<and> s < 400)"

definition wasUpOf :: "monitor \<Rightarrow> bool" where
  "wasUpOf m = (toNumber (lastStatus m) \<ge> 200 \<and> toNumber (lastStatus m) < 400)"

text \<open>\<open>history.slice(-n)\<close>: the last \<open>n\<close> elements.\<close>

definition slice_last :: "nat \<Rightarrow> 'a list \<Rightarrow> 'a list" where
  "slice_last n xs = drop (length xs - n) xs"

text \<open>\<open>monitor.history.push(point); if (monitor.history.length > 200) monitor.history.shift();\<close>\<close>

definition pushHistory :: "point \<Rightarrow> point list \<Rightarrow> point list" where
  "pushHistory p h = (let h' = h @ [p] in if length h' > 200 then tl h' else h')"

text \<open>\<open>monitor.name || monitor.url\<close>: \<open>null\<close> and the empty string are falsy.\<close>

definition nameOrUrl :: "monitor \<Rightarrow> jsstring" where
  "nameOrUrl m = (case name m of None \<Rightarrow> url m | Some n \<Rightarrow> if n = [] then url m else n)"

text \<open>
  \<open>triggerAlert(monitor, wasUp, nowUp, error)\<close> builds the alert from the monitor as it
  is after the overwrite and passes it to every callback; a throwing callback is caught.
  The model keeps the alert.
\<close>

definition triggerAlert :: "monitor \<Rightarrow> bool \<Rightarrow> bool \<Rightarrow> string option \<Rightarrow> int \<Rightarrow> alert" where
  "triggerAlert m w n e now =
     \<lparr> monitorId = mon_id m, monitorName = nameOrUrl m, alertUrl = url m,
       timestamp = now, wasUp = w, nowUp = n, alertError = e,
       alertStatus = lastStatus m, latency = lastLatency m \<rparr>"

text \<open>The two point object literals: of the \<open>try\<close> block and of the \<open>catch\<close> block.\<close>

definition respPoint :: "bool \<Rightarrow> int \<Rightarrow> attempt_io \<Rightarrow> nat \<Rightarrow> int \<Rightarrow> point" where
  "respPoint isForced started io n st =
     \<lparr> t = now_point io, up = isUpStatus st, status = st, ms = now_latency io - started,
       attempt = n, forced = isForced, error = None \<rparr>"

definition failPoint :: "bool \<Rightarrow> int \<Rightarrow> attempt_io \<Rightarrow> nat \<Rightarrow> string \<Rightarrow> point" where
  "failPoint isForced started io n msg =
     \<lparr> t = now_point io, up = False, status = 0, ms = now_latency io - started,
       attempt = n, forced = isForced, error = Some msg \<rparr>"

text \<open>The body of the \<open>try\<close> block after \<open>axios.get\<close> has returned a response.\<close>

definition onResponse :: "bool \<Rightarrow> int \<Rightarrow> attempt_io \<Rightarrow> nat \<Rightarrow> int \<Rightarrow> run \<Rightarrow> run" where
  "onResponse isForced started io n st r =
     (let m = mon r;
          isUp = isUpStatus st;
          w = wasUpOf m;
          p = respPoint isForced started io n st;
          m1 = m \<lparr> lastStatus := Some st, lastLatency := Some (ms p),
                   lastChecked := Some (t p), lastError := None, retryCount := 0 \<rparr>;
          m2 = (if isUp then m1 \<lparr> consecutiveFailures := 0 \<rparr>
                else m1 \<lparr> consecutiveFailures := consecutiveFailures m1 + 1 \<rparr>);
          m3 = m2 \<lparr> history := pushHistory p (history m2) \<rparr>
      in \<lparr> mon = m3, pushed = pushed r @ [p],
           alerts = (if w \<noteq> isUp then alerts r @ [triggerAlert m3 w isUp None (now_alert io)]
                     else alerts r) \<rparr>)"

text \<open>The \<open>catch\<close> block: nothing is recorded unless this was the last attempt.\<close>

definition onThrown :: "bool \<Rightarrow> int \<Rightarrow> attempt_io \<Rightarrow> nat \<Rightarrow> string \<Rightarrow> run \<Rightarrow> run" where
  "onThrown isForced started io n msg r =
     (let m = mon r;
          w = wasUpOf m
      in if n = MAX_RETRIES then
           (let p = failPoint isForced started io n msg;
                m1 = m \<lparr> lastStatus := Some 0, lastLatency := Some (ms p),
                         lastChecked := Some (t p), lastError := Some msg,
                         retryCount := retryCount m + 1,
                         consecutiveFailures := consecutiveFailures m + 1 \<rparr>;
                m2 = m1 \<lparr> history := pushHistory p (history m1) \<rparr>
            in \<lparr> mon = m2, pushed = pushed r @ [p],
                 alerts = (if w then alerts r @ [triggerAlert m2 w False (Some msg) (now_alert io)]
                           else alerts r) \<rparr>)
         else r)"

text \<open>
  The loop \<open>for (let attempt = 1; attempt <= MAX_RETRIES; attempt++)\<close>. A response
  leaves the loop when it is up or the attempts are used up; every other case goes on
  with the next attempt (after the retry delay, which changes no state).
\<close>

function checkLoop :: "bool \<Rightarrow> int \<Rightarrow> (nat \<Rightarrow> attempt_io) \<Rightarrow> nat \<Rightarrow> run \<Rightarrow> run" where
  "checkLoop isForced started io n r =
     (if n \<le> MAX_RETRIES then
        (case result (io n) of
           Response st \<Rightarrow>
             (if isUpStatus st \<or> n = MAX_RETRIES
              then onResponse isForced started (io n) n st r
              else checkLoop isForced started io (n + 1)
                     (onResponse isForced started (io n) n st r))
         | Thrown msg \<Rightarrow>
             checkLoop isForced started io (n + 1)
               (onThrown isForced started (io n) n msg r))
      else r)"
  by pat_completeness auto
termination
  by (relation "measure (\<lambda>(isForced, started, io, n, r). Suc MAX_RETRIES - n)") auto

declare checkLoop.simps [simp del]

text \<open>
  \<open>checkOnce(monitor, isForced)\<close>: the guard, the reading of the clock (\<open>started\<close>), the
  loop. The run starts with empty logs. \<open>saveMonitors\<close> at the end writes a copy of the
  registry to the store and changes no monitor.
\<close>

definition initRun :: "monitor \<Rightarrow> run" where
  "initRun m = \<lparr> mon = m, pushed = [], alerts = [] \<rparr>"

definition checkOnce :: "monitor \<Rightarrow> bool \<Rightarrow> int \<Rightarrow> (nat \<Rightarrow> attempt_io) \<Rightarrow> run" where
  "checkOnce m isForced started io =
     (if \<not> enabled m \<and> \<not> isForced then initRun m
      else checkLoop isForced started io 1 (initRun m))"

text \<open>
  One check as the world sees it: forced or not, the clock at its start, the outcomes
  of its attempts. A sequence of checks of one monitor, one after the other.
\<close>

type_synonym check = "bool \<times> int \<times> (nat \<Rightarrow> attempt_io)"

fun checkMany :: "run \<Rightarrow> check list \<Rightarrow> run" where
  "checkMany r [] = r"
| "checkMany r ((isForced, started, io) # cs) =
     (let r' = checkOnce (mon r) isForced started io
      in checkMany \<lparr> mon = mon r', pushed = pushed r @ pushed r',
                     alerts = alerts r @ alerts r' \<rparr> cs)"

text \<open>The invariant of the ledger along a run that started from the history \<open>h0\<close>.\<close>

definition ledger :: "point list \<Rightarrow> run \<Rightarrow> bool" where
  "ledger h0 r = (history (mon r) = slice_last 200 (h0 @ pushed r))"

section \<open>Derived views\<close>

text \<open>\<open>Math.round\<close> rounds to the nearest integer, a half towards plus infinity.\<close>

definition Math_round :: "rat \<Rightarrow> int" where
  "Math_round x = \<lfloor>x + 1 / 2\<rfloor>"

text \<open>
  \<open>uptimeFromHistory(history)\<close>. The quotient, the product and the division by ten
  are taken in the rationals.
\<close>

definition uptimeFromHistory :: "point list \<Rightarrow> rat" where
  "uptimeFromHistory h =
     (if length h = 0 then 0
      else of_int (Math_round ((of_nat (length (filter up h)) / of_nat (length h)) * 1000)) / 10)"

text \<open>
  The specification's wording of the same view, for comparison:
  \<open>round(upCount/total * 1000)/10\<close>, and \<open>0\<close> for the empty history.
\<close>

definition uptimePct_spec :: "bool list \<Rightarrow> rat" where
  "uptimePct_spec ups =
     (case ups of [] \<Rightarrow> 0
      | _ \<Rightarrow> of_int (round ((of_nat (count_list ups True) / of_nat (length ups)) * 1000 :: rat)) / 10)"

section \<open>The registry and the scheduler\<close>

text \<open>
  \<open>state.monitors\<close> is a JavaScript \<open>Map\<close>, which iterates in insertion order and
  keeps the position of a key that is set again: an association list with
  \<open>AList.update\<close>. \<open>state.timers\<close> holds an interval handle for some ids. A call of
  the asynchronous \<open>checkOnce\<close> that has not returned yet is a task: it waits for
  \<open>axios.get\<close>, for the retry delay or for \<open>saveMonitors\<close>. \<open>alerted\<close> lists the
  alerts handed to the alert callbacks so far, oldest first.
\<close>

datatype phase = AwaitGet | AwaitDelay | AwaitSave

record task =
  task_mon :: string
  task_forced :: bool
  task_started :: int
  task_attempt :: nat
  task_phase :: phase

record server =
  monitors :: "(string \<times> monitor) list"
  timers :: "string list"
  inflight :: "task list"
  alerted :: "alert list"

text \<open>
  The start of \<open>checkOnce(monitor, isForced)\<close> up to its first \<open>await\<close>: the guard, the
  clock reading, the first request.
\<close>

definition launch :: "string \<Rightarrow> bool \<Rightarrow> int \<Rightarrow> server \<Rightarrow> server" where
  "launch i isForced now s =
     (case map_of (monitors s) i of
        None \<Rightarrow> s
      | Some m \<Rightarrow>
          if \<not> enabled m \<and> \<not> isForced then s
          else s \<lparr> inflight := inflight s @
                 [\<lparr> task_mon = i, task_forced = isForced, task_started = now,
                    task_attempt = 1, task_phase = AwaitGet \<rparr>] \<rparr>)"

definition stopTimer :: "string \<Rightarrow> server \<Rightarrow> server" where
  "stopTimer i s = (if i \<in> set (timers s) then s \<lparr> timers := removeAll i (timers s) \<rparr> else s)"

text \<open>\<open>startTimer(id)\<close>: immediate check, then the interval.\<close>

definition startTimer :: "string \<Rightarrow> int \<Rightarrow> server \<Rightarrow> server" where
  "startTimer i now s =
     (let s1 = stopTimer i s
      in case map_of (monitors s1) i of
           None \<Rightarrow> s1
         | Some m \<Rightarrow>
             if \<not> enabled m then s1
             else (let s2 = launch i False now s1 in s2 \<lparr> timers := timers s2 @ [i] \<rparr>))"

text \<open>
  What the event loop can run next. \<open>TimerFires i now\<close> is the callback
  \<open>() => checkOnce(m)\<close> of the interval armed for \<open>i\<close>; the other three resume the
  \<open>k\<close>-th pending call of \<open>checkOnce\<close> at its \<open>await\<close>. An event that is not enabled
  in a state leaves it as it is.
\<close>

datatype event =
    TimerFires string int
  | GetSettles nat attempt_io
  | DelayElapsed nat
  | SaveSettles nat

text \<open>
  The code between the settling of \<open>axios.get\<close> and the next \<open>await\<close>, on the
  monitor as the registry has it at that moment: the \<open>try\<close> block's rest after a
  response, the \<open>catch\<close> block after a throw.
\<close>

definition attemptRun :: "task \<Rightarrow> attempt_io \<Rightarrow> monitor \<Rightarrow> run" where
  "attemptRun tk a m =
     (case result a of
        Response st \<Rightarrow>
          onResponse (task_forced tk) (task_started tk) a (task_attempt tk) st (initRun m)
      | Thrown msg \<Rightarrow>
          onThrown (task_forced tk) (task_started tk) a (task_attempt tk) msg (initRun m))"

text \<open>Where the check waits next: the retry delay, or the save after the loop.\<close>

definition nextPhase :: "task \<Rightarrow> attempt_io \<Rightarrow> phase" where
  "nextPhase tk a =
     (case result a of
        Response st \<Rightarrow>
          if isUpStatus st \<or> task_attempt tk = MAX_RETRIES then AwaitSave else AwaitDelay
      | Thrown msg \<Rightarrow> if task_attempt tk < MAX_RETRIES then AwaitDelay else AwaitSave)"

text \<open>
  Resuming a check whose request has settled: the monitor is read from the registry
  and written back, and the alerts emitted are the second component. (No event
  removes a monitor, so a pending check always finds its monitor.)
\<close>

definition resumeGet :: "task \<Rightarrow> attempt_io \<Rightarrow> (string \<times> monitor) list \<Rightarrow>
    ((string \<times> monitor) list \<times> alert list) \<times> task" where
  "resumeGet tk a reg =
     ((case map_of reg (task_mon tk) of
         None \<Rightarrow> (reg, [])
       | Some m \<Rightarrow>
           (AList.update (task_mon tk) (mon (attemptRun tk a m)) reg, alerts (attemptRun tk a m))),
      tk \<lparr> task_phase := nextPhase tk a \<rparr>)"

fun step :: "event \<Rightarrow> server \<Rightarrow> server" where
  "step (TimerFires i now) s = (if i \<in> set (timers s) then launch i False now s else s)"
| "step (GetSettles k a) s =
     (if k < length (inflight s) \<and> task_phase (inflight s ! k) = AwaitGet then
        (let ((reg, al), tk) = resumeGet (inflight s ! k) a (monitors s)
         in s \<lparr> monitors := reg, inflight := (inflight s)[k := tk],
                alerted := alerted s @ al \<rparr>)
      else s)"
| "step (DelayElapsed k) s =
     (if k < length (inflight s) \<and> task_phase (inflight s ! k) = AwaitDelay then
        s \<lparr> inflight := (inflight s)[k := (inflight s ! k)
               \<lparr> task_attempt := task_attempt (inflight s ! k) + 1, task_phase := AwaitGet \<rparr>] \<rparr>
      else s)"
| "step (SaveSettles k) s =
     (if k < length (inflight s) \<and> task_phase (inflight s ! k) = AwaitSave then
        s \<lparr> inflight := take k (inflight s) @ drop (Suc k) (inflight s) \<rparr>
      else s)"

definition run_events :: "event list \<Rightarrow> server \<Rightarrow> server" where
  "run_events es s = fold step es s"

text \<open>The number of calls of \<open>checkOnce\<close> on monitor \<open>i\<close> that have not returned.\<close>

definition inFlight :: "string \<Rightarrow> server \<Rightarrow> nat" where
  "inFlight i s = length (filter (\<lambda>tk. task_mon tk = i) (inflight s))"

text \<open>
  The events that resume the \<open>k\<close>-th pending check, from its attempt \<open>n\<close> on, at
  each of its \<open>await\<close>s up to the final save, when the world answers its attempts as
  \<open>io\<close> says.
\<close>

function drive :: "nat \<Rightarrow> (nat \<Rightarrow> attempt_io) \<Rightarrow> nat \<Rightarrow> event list" where
  "drive k io n =
     (if n \<le> MAX_RETRIES then
        GetSettles k (io n) #
          (case result (io n) of
             Response st \<Rightarrow>
               if isUpStatus st \<or> n = MAX_RETRIES then []
               else DelayElapsed k # drive k io (n + 1)
           | Thrown msg \<Rightarrow>
               if n < MAX_RETRIES then DelayElapsed k # drive k io (n + 1) else [])
      else [])"
  by pat_completeness auto
termination
  by (relation "measure (\<lambda>(k, io, n). Suc MAX_RETRIES - n)") auto

declare drive.simps [simp del]

section \<open>The registry's routes\<close>

text \<open>
  \<open>String.prototype.trim\<close> strips the code units of ECMAScript's white space and line
  terminators: tab, line feed, vertical tab, form feed, carriage return, space, U+00A0,
  U+1680, U+2000 to U+200A, U+2028, U+2029, U+202F, U+205F, U+3000 and U+FEFF.
\<close>

definition isSpace :: "nat \<Rightarrow> bool" where
  "isSpace c =
     (c \<in> {9, 10, 11, 12, 13, 32, 160, 5760, 8232, 8233, 8239, 8287, 12288, 65279} \<or>
      (8192 \<le> c \<and> c \<le> 8202))"

definition trim :: "jsstring \<Rightarrow> jsstring" where
  "trim s = rev (dropWhile isSpace (rev (dropWhile isSpace s)))"

text \<open>
  The test \<open>/^https?:\/\//i\<close>. Without the \<open>u\<close> flag the \<open>i\<close> flag folds no code
  unit above 127 onto an ASCII letter, so only \<open>A\<close> to \<open>Z\<close> are folded.
\<close>

definition lowerChar :: "nat \<Rightarrow> nat" where
  "lowerChar c = (if 65 \<le> c \<and> c \<le> 90 then c + 32 else c)"

definition hasHttpScheme :: "jsstring \<Rightarrow> bool" where
  "hasHttpScheme s =
     (let l = map lowerChar s
      in take 7 l = ascii ''http://'' \<or> take 8 l = ascii ''https://'')"

definition normalizeUrl :: "jsstring \<Rightarrow> jsstring" where
  "normalizeUrl u = (if hasHttpScheme u then u else ascii ''http://'' @ u)"

text \<open>The comparisons \<open><\<close> and \<open>>=\<close> of JavaScript numbers; with \<open>NaN\<close> both are false.\<close>

fun js_lt :: "jsnum \<Rightarrow> jsnum \<Rightarrow> bool" where
  "js_lt NaN _ = False"
| "js_lt _ NaN = False"
| "js_lt (Fin a) (Fin b) = (a < b)"
| "js_lt NegInf NegInf = False"
| "js_lt NegInf _ = True"
| "js_lt _ NegInf = False"
| "js_lt PosInf _ = False"
| "js_lt (Fin a) PosInf = True"

fun js_ge :: "jsnum \<Rightarrow> jsnum \<Rightarrow> bool" where
  "js_ge NaN _ = False"
| "js_ge _ NaN = False"
| "js_ge (Fin a) (Fin b) = (a \<ge> b)"
| "js_ge _ NegInf = True"
| "js_ge NegInf _ = False"
| "js_ge PosInf _ = True"
| "js_ge (Fin a) PosInf = False"

definition isFinite :: "jsnum \<Rightarrow> bool" where
  "isFinite n = (case n of Fin _ \<Rightarrow> True | _ \<Rightarrow> False)"

text \<open>\<open>n || d\<close> on numbers: \<open>NaN\<close> and zero are falsy.\<close>

definition orDefault :: "jsnum \<Rightarrow> jsnum \<Rightarrow> jsnum" where
  "orDefault n d = (if n = NaN \<or> n = Fin 0 then d else n)"

text \<open>\<open>name ? name.trim() : null\<close>, for a name that is a string when it is there.\<close>

definition normalizeName :: "jsstring option \<Rightarrow> jsstring option" where
  "normalizeName v = (case v of None \<Rightarrow> None | Some n \<Rightarrow> if n = [] then None else Some (trim n))"

datatype api_error = BadRequest string | NotFound string

text \<open>
  The body of \<open>POST /api/monitors\<close> as the handler reads it: \<open>c_url\<close> is \<open>None\<close>
  when \<open>url\<close> is absent or not a string, \<open>c_intervalMs\<close> is \<open>Number(intervalMs)\<close>
  (\<open>NaN\<close> when the field is absent). The new id comes from \<open>nanoid\<close>.
\<close>

record create_body =
  c_name :: "jsstring option"
  c_url :: "jsstring option"
  c_intervalMs :: jsnum

text \<open>The normalisation and the monitor object literal of the handler.\<close>

definition newMonitor :: "create_body \<Rightarrow> jsstring \<Rightarrow> string \<Rightarrow> monitor" where
  "newMonitor body u newId =
     (let iv0 = orDefault (c_intervalMs body) (Fin DEFAULT_INTERVAL_MS);
          iv = (if js_lt iv0 (Fin 2000) then Fin 2000 else iv0)
      in \<lparr> mon_id = newId, name = normalizeName (c_name body),
           url = normalizeUrl (trim u), intervalMs = iv, history = [],
           lastStatus = None, lastLatency = None, lastChecked = None,
           enabled = True, retryCount = 0, lastError = None,
           consecutiveFailures = 0 \<rparr>)"

definition createMonitor :: "create_body \<Rightarrow> string \<Rightarrow> int \<Rightarrow> server \<Rightarrow> server \<times> (api_error + monitor)" where
  "createMonitor body newId now s =
     (case c_url body of
        None \<Rightarrow> (s, Inl (BadRequest ''url is required''))
      | Some u \<Rightarrow>
          if u = [] then (s, Inl (BadRequest ''url is required''))
          else
            (let m = newMonitor body u newId;
                 s1 = s \<lparr> monitors := AList.update newId m (monitors s) \<rparr>
             in (startTimer newId now s1, Inr m)))"

text \<open>
  The body of \<open>PATCH /api/monitors/:id\<close>: \<open>None\<close> is \<open>undefined\<close> for \<open>p_name\<close>,
  \<open>p_intervalMs\<close> (otherwise \<open>Number(intervalMs)\<close>) and \<open>p_enabled\<close> (otherwise
  \<open>!!enabled\<close>); \<open>p_url\<close> is \<open>None\<close> when \<open>url\<close> is not a string.
\<close>

record patch_body =
  p_name :: "jsstring option option"
  p_url :: "jsstring option"
  p_intervalMs :: "jsnum option"
  p_enabled :: "bool option"

text \<open>The four conditional assignments of the handler, in order.\<close>

definition applyPatch :: "patch_body \<Rightarrow> monitor \<Rightarrow> monitor" where
  "applyPatch body m =
     (let m1 = (case p_name body of None \<Rightarrow> m | Some v \<Rightarrow> m \<lparr> name := normalizeName v \<rparr>);
          m2 = (case p_url body of
                  None \<Rightarrow> m1
                | Some u \<Rightarrow> if trim u \<noteq> [] then m1 \<lparr> url := normalizeUrl (trim u) \<rparr> else m1);
          m3 = (case p_intervalMs body of
                  None \<Rightarrow> m2
                | Some iv \<Rightarrow> if isFinite iv \<and> js_ge iv (Fin 2000) then m2 \<lparr> intervalMs := iv \<rparr> else m2)
      in (case p_enabled body of None \<Rightarrow> m3 | Some e \<Rightarrow> m3 \<lparr> enabled := e \<rparr>))"

definition patchMonitor :: "string \<Rightarrow> patch_body \<Rightarrow> int \<Rightarrow> server \<Rightarrow> server \<times> (api_error + monitor)" where
  "patchMonitor i body now s =
     (case map_of (monitors s) i of
        None \<Rightarrow> (s, Inl (NotFound ''Not found''))
      | Some m \<Rightarrow>
          (let m4 = applyPatch body m;
               s1 = s \<lparr> monitors := AList.update i m4 (monitors s) \<rparr>
           in (if enabled m4 then startTimer (mon_id m4) now s1 else stopTimer (mon_id m4) s1,
               Inr m4)))"

section \<open>Forced checks and the recovery sweep\<close>

text \<open>
  A forced check seen from its caller, who awaits it: the check runs to its end. The
  world gives, for the monitor checked, the clock at the start and the attempts'
  outcomes.
\<close>

type_synonym world = "string \<Rightarrow> int \<times> (nat \<Rightarrow> attempt_io)"

definition forceCheck :: "string \<Rightarrow> world \<Rightarrow> (string \<times> monitor) list \<Rightarrow> (string \<times> monitor) list \<times> bool" where
  "forceCheck i w reg =
     (case map_of reg i of
        None \<Rightarrow> (reg, False)
      | Some m \<Rightarrow> (AList.update i (mon (checkOnce m True (fst (w i)) (snd (w i)))) reg, True))"

text \<open>The filter \<open>m.enabled && (m.lastStatus < 200 || m.lastStatus >= 400)\<close>.\<close>

definition isDownEnabled :: "monitor \<Rightarrow> bool" where
  "isDownEnabled m = (enabled m \<and> (toNumber (lastStatus m) < 200 \<or> toNumber (lastStatus m) \<ge> 400))"

text \<open>
  The 30-second interval's callback: the down monitors are listed first, then
  \<open>forceCheck(monitor.id)\<close> is called for each. The second component lists the ids
  force-checked, in order.
\<close>

definition sweep :: "world \<Rightarrow> (string \<times> monitor) list \<Rightarrow> (string \<times> monitor) list \<times> string list" where
  "sweep w reg =
     (let downMonitors = filter isDownEnabled (map snd reg)
      in (fold (\<lambda>m reg'. fst (forceCheck (mon_id m) w reg')) downMonitors reg,
          map mon_id downMonitors))"

text \<open>
  \<open>forceCheckAllDown\<close> calls \<open>checkOnce(monitor, true)\<close> on the listed objects
  themselves and returns how many there were.
\<close>

definition forceCheckAllDown :: "world \<Rightarrow> (string \<times> monitor) list \<Rightarrow> (string \<times> monitor) list \<times> nat" where
  "forceCheckAllDown w reg =
     (map (\<lambda>(k, m). if isDownEnabled m
                     then (k, mon (checkOnce m True (fst (w (mon_id m))) (snd (w (mon_id m)))))
                     else (k, m)) reg,
      length (filter isDownEnabled (map snd reg)))"

text \<open>
  The registry as the routes keep it: every monitor is stored under its own id
  (a \<open>Map\<close> has each key once).
\<close>

definition registry_ok :: "(string \<times> monitor) list \<Rightarrow> bool" where
  "registry_ok reg = (distinct (map fst reg) \<and> list_all (\<lambda>(k, m). mon_id m = k) reg)"

section \<open>Concrete scenarios\<close>

text \<open>
  A monitor as \<open>POST /api/monitors\<close> creates it, and a world that answers the
  attempts of a check from a list of outcomes (a transport timeout once the list is
  used up), with the clock advancing by a second per attempt.
\<close>

definition mon0 :: monitor where
  "mon0 = \<lparr> mon_id = ''a'', name = None, url = ascii ''http://example.com'',
            intervalMs = Fin 5000, history = [], lastStatus = None, lastLatency = None,
            lastChecked = None, enabled = True, retryCount = 0, lastError = None,
            consecutiveFailures = 0 \<rparr>"

definition script :: "outcome list \<Rightarrow> nat \<Rightarrow> attempt_io" where
  "script outs n =
     \<lparr> result = (if 0 < n \<and> n \<le> length outs then outs ! (n - 1) else Thrown ''timeout''),
       now_latency = 1000 * int n, now_point = 1000 * int n + 1,
       now_alert = 1000 * int n + 2 \<rparr>"

definition old_point :: point where
  "old_point = \<lparr> t = 1, up = True, status = 200, ms = 20, attempt = 1, forced = False,
                  error = None \<rparr>"

definition mon_full :: monitor where
  "mon_full = mon0 \<lparr> history := replicate 200 old_point \<rparr>"

definition mon_off :: monitor where
  "mon_off = mon0 \<lparr> enabled := False \<rparr>"

definition mon_up :: monitor where
  "mon_up = mon0 \<lparr> lastStatus := Some 200, lastLatency := Some 20, lastChecked := Some 1 \<rparr>"

definition steady :: "outcome \<Rightarrow> nat \<Rightarrow> attempt_io" where
  "steady out n =
     \<lparr> result = out, now_latency = 1000 * int n, now_point = 1000 * int n + 1,
       now_alert = 1000 * int n + 2 \<rparr>"

definition mon_failing :: monitor where
  "mon_failing = mon0 \<lparr> lastStatus := Some 0, lastLatency := Some 3000, lastChecked := Some 1,
                        retryCount := 2, lastError := Some ''timeout'',
                        consecutiveFailures := 2 \<rparr>"

text \<open>
  The changes of classification along a sequence of classifications that starts from
  \<open>w\<close>: a pair (before, after) for every element that differs from the one before it.
\<close>

fun transitions :: "bool \<Rightarrow> bool list \<Rightarrow> (bool \<times> bool) list" where
  "transitions w [] = []"
| "transitions w (u # us) = (if w \<noteq> u then [(w, u)] else []) @ transitions u us"

text \<open>
  The invariant of the alerts along a run that started from classification \<open>w0\<close>:
  the alerts are the changes along the pushed points, and \<open>lastStatus\<close> classifies as
  the last pushed point does.
\<close>

definition alertTrace :: "bool \<Rightarrow> run \<Rightarrow> bool" where
  "alertTrace w0 r =
     (map (\<lambda>a. (wasUp a, nowUp a)) (alerts r) = transitions w0 (map up (pushed r)) \<and>
      wasUpOf (mon r) = last (w0 # map up (pushed r)))"

text \<open>The floor on the intervals of a registry.\<close>

definition intervals_ok :: "(string \<times> monitor) list \<Rightarrow> bool" where
  "intervals_ok reg = list_all (\<lambda>(k, m). js_ge (intervalMs m) (Fin 2000)) reg"

text \<open>A server with one monitor and its timer armed, and two request bodies.\<close>

definition server0 :: server where
  "server0 = \<lparr> monitors = [(''a'', mon0)], timers = [''a''], inflight = [], alerted = [] \<rparr>"

definition body500 :: create_body where
  "body500 = \<lparr> c_name = None, c_url = Some (ascii ''example.com''), c_intervalMs = Fin 500 \<rparr>"

definition patch500 :: patch_body where
  "patch500 = \<lparr> p_name = None, p_url = None, p_intervalMs = Some (Fin 500), p_enabled = None \<rparr>"

text \<open>
  A registry of two down monitors and an up one, all enabled, and a world in which
  every target answers 200 at once.
\<close>

definition reg3 :: "(string \<times> monitor) list" where
  "reg3 = [(''a'', mon_failing),
           (''b'', mon0 \<lparr> mon_id := ''b'', lastStatus := Some 500, lastChecked := Some 1 \<rparr>),
           (''c'', mon_up \<lparr> mon_id := ''c'' \<rparr>)]"

definition world3 :: world where
  "world3 k = (0, script [Response 200])"

text \<open>
  Two checks of the monitor of \<open>server0\<close> that overlap: the second tick fires while the
  first check, whose attempts all time out, is in its first retry delay, and the attempts
  of the two checks then alternate; every attempt of the second check times out too.
\<close>

definition overlap_events :: "event list" where
  "overlap_events =
     [TimerFires ''a'' 0, GetSettles 0 (script [] 1), TimerFires ''a'' 5000,
      DelayElapsed 0, GetSettles 0 (script [] 2), GetSettles 1 (script [] 1),
      DelayElapsed 0, DelayElapsed 1, GetSettles 0 (script [] 3), GetSettles 1 (script [] 2),
      DelayElapsed 1, GetSettles 1 (script [] 3)]"

section \<open>Properties of the retry loop and of the history ledger\<close>

lemma slice_last_length: "length (slice_last n xs) \<le> n"
  by (simp add: slice_last_def)

lemma slice_last_append: "slice_last n (slice_last n xs @ ys) = slice_last n (xs @ ys)"
  by (cases "n \<le> length xs") (simp_all add: slice_last_def add.commute)

lemma slice_last_short: "length xs \<le> n \<Longrightarrow> slice_last n xs = xs"
  by (simp add: slice_last_def)

text \<open>One push: below the cap the point is appended, at the cap the oldest point goes.\<close>

lemma pushHistory_fifo:
  "length h \<le> 200 \<Longrightarrow> pushHistory p h = (if length h < 200 then h @ [p] else tl h @ [p])"
  by (cases h) (auto simp: pushHistory_def Let_def)

lemma pushHistory_slice:
  assumes "length h \<le> 200"
  shows "pushHistory p h = slice_last 200 (h @ [p])"
proof (cases "length h < 200")
  case True
  then show ?thesis by (simp add: pushHistory_def slice_last_def Let_def)
next
  case False
  with assms have len: "length h = 200" by simp
  then obtain a list where h: "h = a # list" by (cases h) auto
  with len have "length list = 199" by simp
  then show ?thesis using h by (simp add: pushHistory_def slice_last_def Let_def)
qed

text \<open>A property that both branches of an attempt keep is kept by the whole loop.\<close>

lemma checkLoop_preserves:
  assumes "P r"
    and "\<And>n st r. P r \<Longrightarrow> P (onResponse f s (io n) n st r)"
    and "\<And>n msg r. P r \<Longrightarrow> P (onThrown f s (io n) n msg r)"
  shows "P (checkLoop f s io n r)"
  using assms
proof (induction f s io n r rule: checkLoop.induct)
  case (1 f s io n r)
  note resp = "1.prems"(2) and thr = "1.prems"(3)
  show ?case
  proof (cases "n \<le> MAX_RETRIES")
    case False
    then show ?thesis using "1.prems"(1) by (simp add: checkLoop.simps[of f s io n r])
  next
    case le: True
    show ?thesis
    proof (cases "result (io n)")
      case (Response st)
      have step: "P (onResponse f s (io n) n st r)" by (rule resp[OF "1.prems"(1)])
      show ?thesis
      proof (cases "isUpStatus st \<or> n = MAX_RETRIES")
        case True
        then show ?thesis using le Response step by (simp add: checkLoop.simps[of f s io n r])
      next
        case False
        have "P (checkLoop f s io (n + 1) (onResponse f s (io n) n st r))"
          by (rule "1.IH"(1)[OF le Response False step resp thr])
        then show ?thesis using le Response False by (simp add: checkLoop.simps[of f s io n r])
      qed
    next
      case (Thrown msg)
      have step: "P (onThrown f s (io n) n msg r)" by (rule thr[OF "1.prems"(1)])
      have "P (checkLoop f s io (n + 1) (onThrown f s (io n) n msg r))"
        by (rule "1.IH"(2)[OF le Thrown step resp thr])
      then show ?thesis using le Thrown by (simp add: checkLoop.simps[of f s io n r])
    qed
  qed
qed

lemma checkLoop_exit: "\<not> n \<le> MAX_RETRIES \<Longrightarrow> checkLoop f s io n r = r"
  by (simp add: checkLoop.simps[of f s io n r])

lemma onThrown_skip: "n \<noteq> MAX_RETRIES \<Longrightarrow> onThrown f s a n msg r = r"
  by (simp add: onThrown_def Let_def)

text \<open>
  The loop as a rule of inference: \<open>A\<close> holds while the loop goes on, \<open>Q\<close> after the
  attempt that ends it (an up response, any response to the last attempt, or the last
  attempt's transport failure).
\<close>

lemma checkLoop_rule:
  assumes "n \<le> MAX_RETRIES" and "A n r"
    and "\<And>n st r. A n r \<Longrightarrow> n < MAX_RETRIES \<Longrightarrow> result (io n) = Response st \<Longrightarrow>
           \<not> isUpStatus st \<Longrightarrow> A (n + 1) (onResponse f s (io n) n st r)"
    and "\<And>n st r. A n r \<Longrightarrow> n \<le> MAX_RETRIES \<Longrightarrow> result (io n) = Response st \<Longrightarrow>
           isUpStatus st \<or> n = MAX_RETRIES \<Longrightarrow> Q (onResponse f s (io n) n st r)"
    and "\<And>n msg r. A n r \<Longrightarrow> n < MAX_RETRIES \<Longrightarrow> result (io n) = Thrown msg \<Longrightarrow> A (n + 1) r"
    and "\<And>msg r. A MAX_RETRIES r \<Longrightarrow> result (io MAX_RETRIES) = Thrown msg \<Longrightarrow>
           Q (onThrown f s (io MAX_RETRIES) MAX_RETRIES msg r)"
  shows "Q (checkLoop f s io n r)"
  using assms
proof (induction f s io n r rule: checkLoop.induct)
  case (1 f s io n r)
  note le = "1.prems"(1) and A = "1.prems"(2) and rc = "1.prems"(3) and re = "1.prems"(4)
    and tc = "1.prems"(5) and te = "1.prems"(6)
  show ?case
  proof (cases "result (io n)")
    case (Response st)
    show ?thesis
    proof (cases "isUpStatus st \<or> n = MAX_RETRIES")
      case True
      have "Q (onResponse f s (io n) n st r)" by (rule re[OF A le Response True])
      then show ?thesis using le Response True by (simp add: checkLoop.simps[of f s io n r])
    next
      case False
      then have lt: "n < MAX_RETRIES" and down: "\<not> isUpStatus st" using le by auto
      have A': "A (n + 1) (onResponse f s (io n) n st r)" by (rule rc[OF A lt Response down])
      have le': "n + 1 \<le> MAX_RETRIES" using lt by simp
      have "Q (checkLoop f s io (n + 1) (onResponse f s (io n) n st r))"
        by (rule "1.IH"(1)[OF le Response False le' A' rc re tc te])
      then show ?thesis using le Response False by (simp add: checkLoop.simps[of f s io n r])
    qed
  next
    case (Thrown msg)
    show ?thesis
    proof (cases "n = MAX_RETRIES")
      case True
      have "Q (onThrown f s (io n) n msg r)" using te[of r msg] A Thrown True by simp
      moreover have "checkLoop f s io (n + 1) (onThrown f s (io n) n msg r) = onThrown f s (io n) n msg r"
        by (rule checkLoop_exit) (simp add: True)
      ultimately show ?thesis using le Thrown by (simp add: checkLoop.simps[of f s io n r])
    next
      case False
      then have lt: "n < MAX_RETRIES" using le by simp
      have A': "A (n + 1) (onThrown f s (io n) n msg r)"
        using tc[OF A lt Thrown] False by (simp add: onThrown_skip)
      have le': "n + 1 \<le> MAX_RETRIES" using lt by simp
      have "Q (checkLoop f s io (n + 1) (onThrown f s (io n) n msg r))"
        by (rule "1.IH"(2)[OF le Thrown le' A' rc re tc te])
      then show ?thesis using le Thrown by (simp add: checkLoop.simps[of f s io n r])
    qed
  qed
qed

text \<open>What one recorded attempt leaves in the run.\<close>

lemma onResponse_pushed: "pushed (onResponse f s a n st r) = pushed r @ [respPoint f s a n st]"
  by (simp add: onResponse_def Let_def)

lemma onResponse_mon:
  "lastStatus (mon (onResponse f s a n st r)) = Some st"
  "lastLatency (mon (onResponse f s a n st r)) = Some (now_latency a - s)"
  "lastChecked (mon (onResponse f s a n st r)) = Some (now_point a)"
  "lastError (mon (onResponse f s a n st r)) = None"
  "retryCount (mon (onResponse f s a n st r)) = 0"
  "consecutiveFailures (mon (onResponse f s a n st r)) =
     (if isUpStatus st then 0 else consecutiveFailures (mon r) + 1)"
  "history (mon (onResponse f s a n st r)) = pushHistory (respPoint f s a n st) (history (mon r))"
  "enabled (mon (onResponse f s a n st r)) = enabled (mon r)"
  by (simp_all add: onResponse_def respPoint_def Let_def)

lemma respPoint_sel:
  "t (respPoint f s a n st) = now_point a" "up (respPoint f s a n st) = isUpStatus st"
  "status (respPoint f s a n st) = st" "ms (respPoint f s a n st) = now_latency a - s"
  "attempt (respPoint f s a n st) = n" "forced (respPoint f s a n st) = f"
  "error (respPoint f s a n st) = None"
  by (simp_all add: respPoint_def)

lemma failPoint_sel:
  "t (failPoint f s a n msg) = now_point a" "up (failPoint f s a n msg) = False"
  "status (failPoint f s a n msg) = 0" "ms (failPoint f s a n msg) = now_latency a - s"
  "attempt (failPoint f s a n msg) = n" "forced (failPoint f s a n msg) = f"
  "error (failPoint f s a n msg) = Some msg"
  by (simp_all add: failPoint_def)

lemma pushHistory_last: "pushHistory p h \<noteq> [] \<and> last (pushHistory p h) = p"
  by (cases h) (auto simp: pushHistory_def Let_def last_tl)

lemma checkLoop_3:
  "checkLoop f s io 3 r =
     (case result (io 3) of
        Response st \<Rightarrow> onResponse f s (io 3) 3 st r
      | Thrown msg \<Rightarrow> onThrown f s (io 3) 3 msg r)"
  by (subst checkLoop.simps) (simp add: MAX_RETRIES_def checkLoop_exit split: outcome.splits)

lemma checkLoop_2:
  "checkLoop f s io 2 r =
     (case result (io 2) of
        Response st \<Rightarrow>
          if isUpStatus st then onResponse f s (io 2) 2 st r
          else checkLoop f s io 3 (onResponse f s (io 2) 2 st r)
      | Thrown msg \<Rightarrow> checkLoop f s io 3 r)"
  by (subst checkLoop.simps) (simp add: MAX_RETRIES_def onThrown_skip split: outcome.splits)

lemma checkLoop_1:
  "checkLoop f s io (Suc 0) r =
     (case result (io (Suc 0)) of
        Response st \<Rightarrow>
          if isUpStatus st then onResponse f s (io (Suc 0)) (Suc 0) st r
          else checkLoop f s io 2 (onResponse f s (io (Suc 0)) (Suc 0) st r)
      | Thrown msg \<Rightarrow> checkLoop f s io 2 r)"
  by (subst checkLoop.simps)
    (simp add: MAX_RETRIES_def onThrown_skip numeral_2_eq_2 split: outcome.splits)

lemmas checkLoop_unroll = checkLoop_1 checkLoop_2 checkLoop_3

lemma checkLoop_all_thrown:
  assumes "result (io 1) = Thrown e1" "result (io 2) = Thrown e2" "result (io 3) = Thrown e3"
  shows "checkLoop f s io 1 r = onThrown f s (io 3) 3 e3 r"
  using assms by (simp add: checkLoop_unroll)

lemma onThrown_last:
  assumes "n = MAX_RETRIES"
  shows "lastStatus (mon (onThrown f s a n msg r)) = Some 0"
    and "lastLatency (mon (onThrown f s a n msg r)) = Some (now_latency a - s)"
    and "lastChecked (mon (onThrown f s a n msg r)) = Some (now_point a)"
    and "lastError (mon (onThrown f s a n msg r)) = Some msg"
    and "retryCount (mon (onThrown f s a n msg r)) = retryCount (mon r) + 1"
    and "consecutiveFailures (mon (onThrown f s a n msg r)) = consecutiveFailures (mon r) + 1"
    and "history (mon (onThrown f s a n msg r)) = pushHistory (failPoint f s a n msg) (history (mon r))"
    and "enabled (mon (onThrown f s a n msg r)) = enabled (mon r)"
    and "pushed (onThrown f s a n msg r) = pushed r @ [failPoint f s a n msg]"
  using assms by (simp_all add: onThrown_def failPoint_def Let_def)

lemmas eval_defs = checkOnce_def initRun_def checkLoop_unroll onResponse_def onThrown_def
  respPoint_def failPoint_def script_def steady_def MAX_RETRIES_def isUpStatus_def wasUpOf_def
  toNumber_def pushHistory_def triggerAlert_def nameOrUrl_def Let_def mon0_def mon_off_def
  mon_up_def mon_failing_def

lemma checkOnce_runs:
  "enabled m \<or> f \<Longrightarrow> checkOnce m f s io = checkLoop f s io 1 (initRun m)"
  by (auto simp: checkOnce_def)

lemma one_le_MAX: "1 \<le> MAX_RETRIES"
  by (simp add: MAX_RETRIES_def)

text \<open>The terminal attempt of a probe that runs.\<close>

lemma checkLoop_terminal:
  assumes "n \<le> MAX_RETRIES" and "\<forall>p\<in>set (pushed r). forced p = f" and "enabled (mon r) = e"
  shows "pushed (checkLoop f s io n r) \<noteq> [] \<and>
         (\<forall>p\<in>set (pushed (checkLoop f s io n r)). forced p = f) \<and>
         history (mon (checkLoop f s io n r)) \<noteq> [] \<and>
         last (history (mon (checkLoop f s io n r))) = last (pushed (checkLoop f s io n r)) \<and>
         lastChecked (mon (checkLoop f s io n r)) = Some (t (last (pushed (checkLoop f s io n r)))) \<and>
         enabled (mon (checkLoop f s io n r)) = e"
  (is "?Q (checkLoop f s io n r)")
proof (rule checkLoop_rule[where A = "\<lambda>n r. (\<forall>p\<in>set (pushed r). forced p = f) \<and> enabled (mon r) = e"
      and Q = ?Q, OF assms(1)])
  show "(\<forall>p\<in>set (pushed r). forced p = f) \<and> enabled (mon r) = e"
    using assms(2,3) by simp
next
  fix n st and r :: run
  assume "(\<forall>p\<in>set (pushed r). forced p = f) \<and> enabled (mon r) = e"
  then show "(\<forall>p\<in>set (pushed (onResponse f s (io n) n st r)). forced p = f) \<and>
        enabled (mon (onResponse f s (io n) n st r)) = e"
    by (simp add: onResponse_pushed onResponse_mon respPoint_sel)
next
  fix n st and r :: run
  assume "(\<forall>p\<in>set (pushed r). forced p = f) \<and> enabled (mon r) = e"
  then show "?Q (onResponse f s (io n) n st r)"
    by (simp add: onResponse_pushed onResponse_mon respPoint_sel pushHistory_last)
next
  fix n msg and r :: run
  assume "(\<forall>p\<in>set (pushed r). forced p = f) \<and> enabled (mon r) = e"
  then show "(\<forall>p\<in>set (pushed r). forced p = f) \<and> enabled (mon r) = e" .
next
  fix msg and r :: run
  assume "(\<forall>p\<in>set (pushed r). forced p = f) \<and> enabled (mon r) = e"
  then show "?Q (onThrown f s (io MAX_RETRIES) MAX_RETRIES msg r)"
    by (simp add: onThrown_last failPoint_sel pushHistory_last)
qed

lemma ledger_onResponse: "ledger h0 r \<Longrightarrow> ledger h0 (onResponse f s a n st r)"
  by (simp add: ledger_def onResponse_def Let_def pushHistory_slice slice_last_length
      slice_last_append)

lemma ledger_onThrown: "ledger h0 r \<Longrightarrow> ledger h0 (onThrown f s a n msg r)"
  by (simp add: ledger_def onThrown_def Let_def pushHistory_slice slice_last_length
      slice_last_append)

lemma ledger_checkLoop: "ledger h0 r \<Longrightarrow> ledger h0 (checkLoop f s io n r)"
  by (rule checkLoop_preserves) (auto intro: ledger_onResponse ledger_onThrown)

lemma ledger_checkOnce:
  assumes "length (history m) \<le> 200"
  shows "ledger (history m) (checkOnce m f s io)"
proof -
  have init: "ledger (history m) (initRun m)"
    using assms by (simp add: ledger_def initRun_def slice_last_short)
  show ?thesis
    using init ledger_checkLoop[OF init] by (simp add: checkOnce_def)
qed

lemma ledger_checkMany: "ledger h0 r \<Longrightarrow> ledger h0 (checkMany r cs)"
proof (induction r cs rule: checkMany.induct)
  case (1 r)
  then show ?case by simp
next
  case (2 r f s io cs)
  have len: "length (history (mon r)) \<le> 200"
    using "2.prems" by (simp add: ledger_def slice_last_length)
  have "ledger (history (mon r)) (checkOnce (mon r) f s io)"
    by (rule ledger_checkOnce[OF len])
  then have "ledger h0 \<lparr> mon = mon (checkOnce (mon r) f s io),
      pushed = pushed r @ pushed (checkOnce (mon r) f s io),
      alerts = alerts r @ alerts (checkOnce (mon r) f s io) \<rparr>"
    using "2.prems" by (simp add: ledger_def slice_last_append)
  then show ?case using "2.IH" by (simp add: Let_def)
qed

lemma ledger_after_checks:
  assumes "length (history m) \<le> 200"
  shows "length (history (mon (checkMany (initRun m) cs))) \<le> 200"
    and "history (mon (checkMany (initRun m) cs)) =
           slice_last 200 (history m @ pushed (checkMany (initRun m) cs))"
proof -
  have "ledger (history m) (initRun m)"
    using assms by (simp add: ledger_def initRun_def slice_last_short)
  then have l: "ledger (history m) (checkMany (initRun m) cs)"
    by (rule ledger_checkMany)
  then show "history (mon (checkMany (initRun m) cs)) =
           slice_last 200 (history m @ pushed (checkMany (initRun m) cs))"
    by (simp add: ledger_def)
  from l show "length (history (mon (checkMany (initRun m) cs))) \<le> 200"
    by (simp add: ledger_def slice_last_length)
qed

text \<open>
  C2. A monitor enters the registry with at most 200 points: its history is empty at
  creation and cut by \<open>slice(-200)\<close> at loading. From a history of at most 200
  points, after any sequence of checks, the history still holds at most 200 points, and
  it is the last 200 of the old history followed by the points the checks pushed, in
  the order they were pushed: points are only appended, and the oldest go first.
\<close>

theorem history_ring_buffer:
  "history (newMonitor body u newId) = [] \<and>
   length (slice_last 200 h) \<le> 200 \<and>
   (length (history m) \<le> 200 \<longrightarrow>
      length (history (mon (checkMany (initRun m) cs))) \<le> 200 \<and>
      history (mon (checkMany (initRun m) cs)) =
        slice_last 200 (history m @ pushed (checkMany (initRun m) cs)))"
proof (intro conjI impI)
  show "history (newMonitor body u newId) = []"
    by (simp add: newMonitor_def Let_def)
  show "length (slice_last 200 h) \<le> 200"
    by (rule slice_last_length)
next
  assume "length (history m) \<le> 200"
  then show "length (history (mon (checkMany (initRun m) cs))) \<le> 200"
    by (rule ledger_after_checks(1))
next
  assume "length (history m) \<le> 200"
  then show "history (mon (checkMany (initRun m) cs)) =
        slice_last 200 (history m @ pushed (checkMany (initRun m) cs))"
    by (rule ledger_after_checks(2))
qed

theorem history_ring_buffer_witness:
  "length (history mon_full) \<le> 200 \<and>
   history (mon (checkMany (initRun mon_full) [(False, 0, script [Response 200])])) =
     replicate 199 old_point @
       [\<lparr> t = 1001, up = True, status = 200, ms = 1000, attempt = 1, forced = False,
          error = None \<rparr>]"
proof -
  let ?cs = "[(False, 0, script [Response 200])]"
  let ?p = "\<lparr> t = 1001, up = True, status = 200, ms = 1000, attempt = 1, forced = False,
              error = None \<rparr>"
  have len: "length (history mon_full) \<le> 200"
    by (simp add: mon_full_def)
  have ev: "pushed (checkMany (initRun mon_full) ?cs) = [?p]"
    by (simp add: initRun_def checkOnce_def checkLoop.simps mon_full_def mon0_def script_def
        MAX_RETRIES_def onResponse_def respPoint_def Let_def isUpStatus_def)
  have rhs: "slice_last 200 (history mon_full @ [?p]) = replicate 199 old_point @ [?p]"
    by (simp add: slice_last_def mon_full_def)
  have "history (mon (checkMany (initRun mon_full) ?cs)) =
          slice_last 200 (history mon_full @ pushed (checkMany (initRun mon_full) ?cs))"
    using history_ring_buffer[of _ _ _ _ mon_full ?cs] len by blast
  then have "history (mon (checkMany (initRun mon_full) ?cs)) = replicate 199 old_point @ [?p]"
    by (simp only: ev rhs)
  with len show ?thesis by (rule conjI)
qed

section \<open>The probe routine as a task of the event loop\<close>

lemma mon_onResponse_cong:
  "mon r = mon r' \<Longrightarrow> mon (onResponse f s a n st r) = mon (onResponse f s a n st r')"
  by (simp add: onResponse_def Let_def)

lemma mon_onThrown_cong:
  "mon r = mon r' \<Longrightarrow> mon (onThrown f s a n msg r) = mon (onThrown f s a n msg r')"
  by (simp add: onThrown_def Let_def)

lemma mon_checkLoop_cong:
  "mon r = mon r' \<Longrightarrow> mon (checkLoop f s io n r) = mon (checkLoop f s io n r')"
proof (induction f s io n r arbitrary: r' rule: checkLoop.induct)
  case (1 f s io n r)
  show ?case
  proof (cases "n \<le> MAX_RETRIES")
    case False
    then show ?thesis using "1.prems" by (simp add: checkLoop_exit)
  next
    case le: True
    show ?thesis
    proof (cases "result (io n)")
      case (Response st)
      have step: "mon (onResponse f s (io n) n st r) = mon (onResponse f s (io n) n st r')"
        by (rule mon_onResponse_cong[OF "1.prems"])
      show ?thesis
      proof (cases "isUpStatus st \<or> n = MAX_RETRIES")
        case True
        then show ?thesis
          using le Response step
          by (simp add: checkLoop.simps[of f s io n r] checkLoop.simps[of f s io n r'])
      next
        case False
        from "1.IH"(1)[OF le Response False step] le Response False
        show ?thesis
          by (simp add: checkLoop.simps[of f s io n r] checkLoop.simps[of f s io n r'])
      qed
    next
      case (Thrown msg)
      have step: "mon (onThrown f s (io n) n msg r) = mon (onThrown f s (io n) n msg r')"
        by (rule mon_onThrown_cong[OF "1.prems"])
      from "1.IH"(2)[OF le Thrown step] le Thrown
      show ?thesis
        by (simp add: checkLoop.simps[of f s io n r] checkLoop.simps[of f s io n r'])
    qed
  qed
qed

lemma run_events_Cons: "run_events (e # es) s = run_events es (step e s)"
  by (simp add: run_events_def)

lemma run_events_Nil: "run_events [] s = s"
  by (simp add: run_events_def)

text \<open>One attempt of a pending check that goes on to the next attempt.\<close>

lemma attempt_goes_on:
  assumes "k < length (inflight s)"
    and "inflight s ! k = \<lparr> task_mon = i, task_forced = f, task_started = st0,
           task_attempt = n, task_phase = AwaitGet \<rparr>"
    and "map_of (monitors s) i = Some m"
    and "result a = Response st \<and> \<not> isUpStatus st \<and> n \<noteq> MAX_RETRIES \<and>
           r' = onResponse f st0 a n st (initRun m) \<or>
         result a = Thrown msg \<and> n < MAX_RETRIES \<and> r' = onThrown f st0 a n msg (initRun m)"
  shows "k < length (inflight (step (DelayElapsed k) (step (GetSettles k a) s)))"
    and "inflight (step (DelayElapsed k) (step (GetSettles k a) s)) ! k =
           \<lparr> task_mon = i, task_forced = f, task_started = st0, task_attempt = n + 1,
             task_phase = AwaitGet \<rparr>"
    and "map_of (monitors (step (DelayElapsed k) (step (GetSettles k a) s))) i = Some (mon r')"
  using assms by (auto simp add: resumeGet_def attemptRun_def nextPhase_def Let_def AList.update_conv')

text \<open>The attempt that ends the loop.\<close>

lemma attempt_ends:
  assumes "k < length (inflight s)"
    and "inflight s ! k = \<lparr> task_mon = i, task_forced = f, task_started = st0,
           task_attempt = n, task_phase = AwaitGet \<rparr>"
    and "map_of (monitors s) i = Some m"
    and "result a = Response st \<and> (isUpStatus st \<or> n = MAX_RETRIES) \<and>
           r' = onResponse f st0 a n st (initRun m) \<or>
         result a = Thrown msg \<and> \<not> n < MAX_RETRIES \<and> r' = onThrown f st0 a n msg (initRun m)"
  shows "map_of (monitors (step (GetSettles k a) s)) i = Some (mon r')"
    and "task_phase (inflight (step (GetSettles k a) s) ! k) = AwaitSave"
  using assms by (auto simp add: resumeGet_def attemptRun_def nextPhase_def Let_def AList.update_conv')

text \<open>
  A check that is resumed at every \<open>await\<close> with nothing else running in between
  leaves in the registry the monitor that the loop computes.
\<close>

lemma task_runs_checkLoop:
  assumes "k < length (inflight s)"
    and "inflight s ! k = \<lparr> task_mon = i, task_forced = f, task_started = st0,
           task_attempt = n, task_phase = AwaitGet \<rparr>"
    and "n \<le> MAX_RETRIES" and "map_of (monitors s) i = Some m"
  shows "map_of (monitors (run_events (drive k io n) s)) i =
           Some (mon (checkLoop f st0 io n (initRun m)))"
  using assms
proof (induction k io n arbitrary: s m rule: drive.induct)
  case (1 k io n)
  note le = "1.prems"(3)
  let ?s2 = "step (DelayElapsed k) (step (GetSettles k (io n)) s)"
  show ?case
  proof (cases "result (io n)")
    case (Response st)
    show ?thesis
    proof (cases "isUpStatus st \<or> n = MAX_RETRIES")
      case True
      have "map_of (monitors (step (GetSettles k (io n)) s)) i =
          Some (mon (onResponse f st0 (io n) n st (initRun m)))"
        by (rule attempt_ends(1)[OF "1.prems"(1,2,4)]) (use Response True in simp)
      then show ?thesis
        using le Response True
        by (simp add: drive.simps[of k io n] checkLoop.simps[of f st0 io n] run_events_Cons
            run_events_Nil)
    next
      case False
      let ?r = "onResponse f st0 (io n) n st (initRun m)"
      have c: "result (io n) = Response st \<and> \<not> isUpStatus st \<and> n \<noteq> MAX_RETRIES \<and>
           ?r = onResponse f st0 (io n) n st (initRun m) \<or>
         result (io n) = Thrown [] \<and> n < MAX_RETRIES \<and> ?r = onThrown f st0 (io n) n [] (initRun m)"
        using Response False by simp
      note a = attempt_goes_on[OF "1.prems"(1,2,4) c]
      have le': "n + 1 \<le> MAX_RETRIES" using le False by simp
      have "map_of (monitors (run_events (drive k io (n + 1)) ?s2)) i =
          Some (mon (checkLoop f st0 io (n + 1) (initRun (mon ?r))))"
        by (rule "1.IH"(1)[OF le Response False a(1) a(2) le' a(3)])
      moreover have "mon (checkLoop f st0 io (n + 1) (initRun (mon ?r))) =
          mon (checkLoop f st0 io (n + 1) ?r)"
        by (rule mon_checkLoop_cong) (simp add: initRun_def)
      ultimately show ?thesis
        using le Response False
        by (simp add: drive.simps[of k io n] checkLoop.simps[of f st0 io n] run_events_Cons)
    qed
  next
    case (Thrown msg)
    show ?thesis
    proof (cases "n < MAX_RETRIES")
      case True
      let ?r = "onThrown f st0 (io n) n msg (initRun m)"
      have c: "result (io n) = Response 0 \<and> \<not> isUpStatus 0 \<and> n \<noteq> MAX_RETRIES \<and>
           ?r = onResponse f st0 (io n) n 0 (initRun m) \<or>
         result (io n) = Thrown msg \<and> n < MAX_RETRIES \<and> ?r = onThrown f st0 (io n) n msg (initRun m)"
        using Thrown True by simp
      note a = attempt_goes_on[OF "1.prems"(1,2,4) c]
      have le': "n + 1 \<le> MAX_RETRIES" using True by simp
      have "map_of (monitors (run_events (drive k io (n + 1)) ?s2)) i =
          Some (mon (checkLoop f st0 io (n + 1) (initRun (mon ?r))))"
        by (rule "1.IH"(2)[OF le Thrown True a(1) a(2) le' a(3)])
      moreover have "mon (checkLoop f st0 io (n + 1) (initRun (mon ?r))) =
          mon (checkLoop f st0 io (n + 1) ?r)"
        by (rule mon_checkLoop_cong) (simp add: initRun_def)
      ultimately show ?thesis
        using le Thrown True
        by (simp add: drive.simps[of k io n] checkLoop.simps[of f st0 io n] run_events_Cons)
    next
      case False
      have e: "map_of (monitors (step (GetSettles k (io n)) s)) i =
          Some (mon (onThrown f st0 (io n) n msg (initRun m)))"
        by (rule attempt_ends(1)[OF "1.prems"(1,2,4)]) (use Thrown False in simp)
      have d: "drive k io n = [GetSettles k (io n)]"
        using le Thrown False by (subst drive.simps) simp
      have c: "checkLoop f st0 io n (initRun m) = onThrown f st0 (io n) n msg (initRun m)"
        using le Thrown False by (subst checkLoop.simps) (simp add: checkLoop_exit)
      show ?thesis
        unfolding d c run_events_Cons run_events_Nil by (rule e)
    qed
  qed
qed

text \<open>
  So the function \<open>checkOnce\<close> is what a call of the routine does to its monitor when
  it is started and then resumed at every \<open>await\<close> with nothing else in between.
\<close>

lemma launched_check_is_checkOnce:
  assumes "map_of (monitors s) i = Some m" and "enabled m \<or> f"
  shows "map_of (monitors (run_events (drive (length (inflight s)) io 1) (launch i f now s))) i =
           Some (mon (checkOnce m f now io))"
proof -
  let ?s1 = "launch i f now s"
  have 1: "length (inflight s) < length (inflight ?s1)"
    using assms by (auto simp add: launch_def)
  have 2: "inflight ?s1 ! length (inflight s) =
      \<lparr> task_mon = i, task_forced = f, task_started = now, task_attempt = 1,
        task_phase = AwaitGet \<rparr>"
    using assms by (auto simp add: launch_def)
  have 3: "map_of (monitors ?s1) i = Some m"
    using assms by (auto simp add: launch_def)
  from task_runs_checkLoop[OF 1 2 one_le_MAX 3, of io]
  show ?thesis by (simp only: checkOnce_runs[OF assms(2)])
qed

text \<open>
  The same for the alerts. What an attempt adds to the alerts depends on the monitor
  it runs on only, so the alerts of the loop are those of its attempts, each on the
  monitor as the attempt before it left it.
\<close>

lemma onResponse_alerts:
  "alerts (onResponse f s a n st r) =
     alerts r @ (if wasUpOf (mon r) \<noteq> isUpStatus st
                 then [triggerAlert (mon (onResponse f s a n st r)) (wasUpOf (mon r))
                         (isUpStatus st) None (now_alert a)]
                 else [])"
  by (simp add: onResponse_def Let_def)

lemma onThrown_alerts:
  "n = MAX_RETRIES \<Longrightarrow>
   alerts (onThrown f s a n msg r) =
     alerts r @ (if wasUpOf (mon r)
                 then [triggerAlert (mon (onThrown f s a n msg r)) (wasUpOf (mon r)) False
                         (Some msg) (now_alert a)]
                 else [])"
  by (simp add: onThrown_def Let_def)

text \<open>What a run adds to the alerts depends on its monitor only.\<close>

lemma alerts_onResponse_cong:
  assumes "mon r = mon r'"
  shows "\<exists>d. alerts (onResponse f s a n st r) = alerts r @ d \<and>
             alerts (onResponse f s a n st r') = alerts r' @ d"
  unfolding onResponse_alerts mon_onResponse_cong[OF assms, of f s a n st] assms
  by simp

lemma alerts_onThrown_cong:
  assumes "mon r = mon r'"
  shows "\<exists>d. alerts (onThrown f s a n msg r) = alerts r @ d \<and>
             alerts (onThrown f s a n msg r') = alerts r' @ d"
proof (cases "n = MAX_RETRIES")
  case True
  show ?thesis
    unfolding onThrown_alerts[OF True] mon_onThrown_cong[OF assms, of f s a n msg] assms
    by simp
next
  case False
  then show ?thesis by (simp add: onThrown_skip)
qed

lemma alerts_checkLoop_cong:
  "mon r = mon r' \<Longrightarrow>
   \<exists>d. alerts (checkLoop f s io n r) = alerts r @ d \<and>
       alerts (checkLoop f s io n r') = alerts r' @ d"
proof (induction f s io n r arbitrary: r' rule: checkLoop.induct)
  case (1 f s io n r)
  show ?case
  proof (cases "n \<le> MAX_RETRIES")
    case False
    then show ?thesis by (simp add: checkLoop_exit)
  next
    case le: True
    show ?thesis
    proof (cases "result (io n)")
      case (Response st)
      let ?r1 = "onResponse f s (io n) n st r" and ?r1' = "onResponse f s (io n) n st r'"
      have m1: "mon ?r1 = mon ?r1'" by (rule mon_onResponse_cong[OF "1.prems"])
      obtain d where d: "alerts ?r1 = alerts r @ d" "alerts ?r1' = alerts r' @ d"
        using alerts_onResponse_cong[OF "1.prems", of f s "io n" n st] by blast
      show ?thesis
      proof (cases "isUpStatus st \<or> n = MAX_RETRIES")
        case True
        then show ?thesis
          using le Response d
          by (simp add: checkLoop.simps[of f s io n r] checkLoop.simps[of f s io n r'])
      next
        case False
        obtain e where e: "alerts (checkLoop f s io (n + 1) ?r1) = alerts ?r1 @ e"
          "alerts (checkLoop f s io (n + 1) ?r1') = alerts ?r1' @ e"
          using "1.IH"(1)[OF le Response False m1] by blast
        have "alerts (checkLoop f s io n r) = alerts r @ (d @ e)"
          "alerts (checkLoop f s io n r') = alerts r' @ (d @ e)"
          using le Response False d e
          by (simp_all add: checkLoop.simps[of f s io n r] checkLoop.simps[of f s io n r'])
        then show ?thesis by blast
      qed
    next
      case (Thrown msg)
      let ?r1 = "onThrown f s (io n) n msg r" and ?r1' = "onThrown f s (io n) n msg r'"
      have m1: "mon ?r1 = mon ?r1'" by (rule mon_onThrown_cong[OF "1.prems"])
      obtain d where d: "alerts ?r1 = alerts r @ d" "alerts ?r1' = alerts r' @ d"
        using alerts_onThrown_cong[OF "1.prems", of f s "io n" n msg] by blast
      obtain e where e: "alerts (checkLoop f s io (n + 1) ?r1) = alerts ?r1 @ e"
        "alerts (checkLoop f s io (n + 1) ?r1') = alerts ?r1' @ e"
        using "1.IH"(2)[OF le Thrown m1] by blast
      have "alerts (checkLoop f s io n r) = alerts r @ (d @ e)"
        "alerts (checkLoop f s io n r') = alerts r' @ (d @ e)"
        using le Thrown d e
        by (simp_all add: checkLoop.simps[of f s io n r] checkLoop.simps[of f s io n r'])
      then show ?thesis by blast
    qed
  qed
qed

lemma alerts_checkLoop_split:
  "alerts (checkLoop f s io n r) = alerts r @ alerts (checkLoop f s io n (initRun (mon r)))"
proof -
  have "mon r = mon (initRun (mon r))" by (simp add: initRun_def)
  from alerts_checkLoop_cong[OF this, of f s io n]
  show ?thesis by (auto simp: initRun_def)
qed

text \<open>
  One resumption of a pending check, under any interleaving: the attempt runs on the
  monitor the registry holds then, and nothing else of the registry changes.
\<close>

lemma settle_attempt:
  assumes "k < length (inflight s)" and "task_phase (inflight s ! k) = AwaitGet"
    and "map_of (monitors s) (task_mon (inflight s ! k)) = Some m"
  shows "map_of (monitors (step (GetSettles k a) s)) =
           (map_of (monitors s))(task_mon (inflight s ! k) \<mapsto> mon (attemptRun (inflight s ! k) a m))"
    and "alerted (step (GetSettles k a) s) = alerted s @ alerts (attemptRun (inflight s ! k) a m)"
    and "inflight (step (GetSettles k a) s) =
           (inflight s)[k := (inflight s ! k) \<lparr> task_phase := nextPhase (inflight s ! k) a \<rparr>]"
    and "timers (step (GetSettles k a) s) = timers s"
  using assms by (simp_all add: resumeGet_def AList.update_conv')

lemma other_events_keep:
  "monitors (step (TimerFires j now) s) = monitors s"
  "monitors (step (DelayElapsed k) s) = monitors s"
  "monitors (step (SaveSettles k) s) = monitors s"
  "alerted (step (TimerFires j now) s) = alerted s"
  "alerted (step (DelayElapsed k) s) = alerted s"
  "alerted (step (SaveSettles k) s) = alerted s"
  by (simp_all add: launch_def split: option.splits)

lemma attemptRun_Response:
  "result a = Response st \<Longrightarrow>
   attemptRun tk a m = onResponse (task_forced tk) (task_started tk) a (task_attempt tk) st (initRun m)"
  by (simp add: attemptRun_def)

lemma attemptRun_Thrown:
  "result a = Thrown msg \<Longrightarrow>
   attemptRun tk a m = onThrown (task_forced tk) (task_started tk) a (task_attempt tk) msg (initRun m)"
  by (simp add: attemptRun_def)

text \<open>The counters and the alerts of one attempt.\<close>

lemma attemptRun_counters:
  "consecutiveFailures (mon (attemptRun tk a m)) =
     (case result a of
        Response st \<Rightarrow> if isUpStatus st then 0 else consecutiveFailures m + 1
      | Thrown msg \<Rightarrow>
          if task_attempt tk = MAX_RETRIES then consecutiveFailures m + 1
          else consecutiveFailures m)"
  "retryCount (mon (attemptRun tk a m)) =
     (case result a of
        Response st \<Rightarrow> 0
      | Thrown msg \<Rightarrow> if task_attempt tk = MAX_RETRIES then retryCount m + 1 else retryCount m)"
  by (auto simp add: attemptRun_def onResponse_mon onThrown_last onThrown_skip initRun_def
      split: outcome.splits)

lemma triggerAlert_sel: "wasUp (triggerAlert m w n e now) = w" "nowUp (triggerAlert m w n e now) = n"
  by (simp_all add: triggerAlert_def)

lemma attemptRun_alerts:
  "map (\<lambda>x. (wasUp x, nowUp x)) (alerts (attemptRun tk a m)) =
     (case result a of
        Response st \<Rightarrow> if wasUpOf m \<noteq> isUpStatus st then [(wasUpOf m, isUpStatus st)] else []
      | Thrown msg \<Rightarrow> if task_attempt tk = MAX_RETRIES \<and> wasUpOf m then [(True, False)] else [])"
proof (cases "result a")
  case (Response st)
  then show ?thesis
    by (simp add: attemptRun_def onResponse_alerts initRun_def triggerAlert_sel)
next
  case (Thrown msg)
  show ?thesis
  proof (cases "task_attempt tk = MAX_RETRIES")
    case True
    then show ?thesis
      using Thrown by (simp add: attemptRun_def onThrown_alerts initRun_def triggerAlert_sel)
  next
    case False
    then show ?thesis
      using Thrown by (simp add: attemptRun_def onThrown_skip initRun_def)
  qed
qed

lemma attempt_alerted:
  assumes "k < length (inflight s)"
    and "inflight s ! k = \<lparr> task_mon = i, task_forced = f, task_started = st0,
           task_attempt = n, task_phase = AwaitGet \<rparr>"
    and "map_of (monitors s) i = Some m"
  shows "result a = Response st \<Longrightarrow>
           alerted (step (GetSettles k a) s) = alerted s @ alerts (onResponse f st0 a n st (initRun m))"
    and "result a = Thrown msg \<Longrightarrow>
           alerted (step (GetSettles k a) s) = alerted s @ alerts (onThrown f st0 a n msg (initRun m))"
    and "alerted (step (DelayElapsed k) (step (GetSettles k a) s)) = alerted (step (GetSettles k a) s)"
  using assms by (simp_all add: resumeGet_def attemptRun_def)

text \<open>
  A check that is resumed at every \<open>await\<close> with nothing else running in between
  emits the alerts that the loop computes.
\<close>

lemma task_alerts_checkLoop:
  assumes "k < length (inflight s)"
    and "inflight s ! k = \<lparr> task_mon = i, task_forced = f, task_started = st0,
           task_attempt = n, task_phase = AwaitGet \<rparr>"
    and "n \<le> MAX_RETRIES" and "map_of (monitors s) i = Some m"
  shows "alerted (run_events (drive k io n) s) =
           alerted s @ alerts (checkLoop f st0 io n (initRun m))"
  using assms
proof (induction k io n arbitrary: s m rule: drive.induct)
  case (1 k io n)
  note le = "1.prems"(3)
  note al = attempt_alerted[OF "1.prems"(1,2,4)]
  let ?s2 = "step (DelayElapsed k) (step (GetSettles k (io n)) s)"
  show ?case
  proof (cases "result (io n)")
    case (Response st)
    let ?r = "onResponse f st0 (io n) n st (initRun m)"
    show ?thesis
    proof (cases "isUpStatus st \<or> n = MAX_RETRIES")
      case True
      have d: "drive k io n = [GetSettles k (io n)]"
        using le Response True by (subst drive.simps) auto
      have c: "checkLoop f st0 io n (initRun m) = ?r"
        using le Response True by (subst checkLoop.simps) auto
      show ?thesis
        unfolding d c run_events_Cons run_events_Nil by (rule al(1)[OF Response])
    next
      case False
      have c0: "result (io n) = Response st \<and> \<not> isUpStatus st \<and> n \<noteq> MAX_RETRIES \<and>
           ?r = onResponse f st0 (io n) n st (initRun m) \<or>
         result (io n) = Thrown [] \<and> n < MAX_RETRIES \<and> ?r = onThrown f st0 (io n) n [] (initRun m)"
        using Response False by simp
      note a = attempt_goes_on[OF "1.prems"(1,2,4) c0]
      have le': "n + 1 \<le> MAX_RETRIES" using le False by simp
      have "alerted (run_events (drive k io (n + 1)) ?s2) =
          alerted ?s2 @ alerts (checkLoop f st0 io (n + 1) (initRun (mon ?r)))"
        by (rule "1.IH"(1)[OF le Response False a(1) a(2) le' a(3)])
      then have "alerted (run_events (drive k io (n + 1)) ?s2) =
          alerted s @ alerts (checkLoop f st0 io (n + 1) ?r)"
        unfolding al(3) al(1)[OF Response] alerts_checkLoop_split[of f st0 io "n + 1" ?r]
        by simp
      moreover have d: "drive k io n = GetSettles k (io n) # DelayElapsed k # drive k io (n + 1)"
        using le Response False by (subst drive.simps) auto
      moreover have c: "checkLoop f st0 io n (initRun m) = checkLoop f st0 io (n + 1) ?r"
        using le Response False by (subst checkLoop.simps) auto
      ultimately show ?thesis by (simp only: run_events_Cons)
    qed
  next
    case (Thrown msg)
    let ?r = "onThrown f st0 (io n) n msg (initRun m)"
    show ?thesis
    proof (cases "n < MAX_RETRIES")
      case True
      have c0: "result (io n) = Response 0 \<and> \<not> isUpStatus 0 \<and> n \<noteq> MAX_RETRIES \<and>
           ?r = onResponse f st0 (io n) n 0 (initRun m) \<or>
         result (io n) = Thrown msg \<and> n < MAX_RETRIES \<and> ?r = onThrown f st0 (io n) n msg (initRun m)"
        using Thrown True by simp
      note a = attempt_goes_on[OF "1.prems"(1,2,4) c0]
      have le': "n + 1 \<le> MAX_RETRIES" using True by simp
      have "alerted (run_events (drive k io (n + 1)) ?s2) =
          alerted ?s2 @ alerts (checkLoop f st0 io (n + 1) (initRun (mon ?r)))"
        by (rule "1.IH"(2)[OF le Thrown True a(1) a(2) le' a(3)])
      then have "alerted (run_events (drive k io (n + 1)) ?s2) =
          alerted s @ alerts (checkLoop f st0 io (n + 1) ?r)"
        unfolding al(3) al(2)[OF Thrown] alerts_checkLoop_split[of f st0 io "n + 1" ?r]
        by simp
      moreover have d: "drive k io n = GetSettles k (io n) # DelayElapsed k # drive k io (n + 1)"
        using le Thrown True by (subst drive.simps) auto
      moreover have c: "checkLoop f st0 io n (initRun m) = checkLoop f st0 io (n + 1) ?r"
        using le Thrown by (subst checkLoop.simps) auto
      ultimately show ?thesis by (simp only: run_events_Cons)
    next
      case False
      have d: "drive k io n = [GetSettles k (io n)]"
        using le Thrown False by (subst drive.simps) simp
      have c: "checkLoop f st0 io n (initRun m) = ?r"
        using le Thrown False by (subst checkLoop.simps) (simp add: checkLoop_exit)
      show ?thesis
        unfolding d c run_events_Cons run_events_Nil by (rule al(2)[OF Thrown])
    qed
  qed
qed

lemma launched_check_alerts:
  assumes "map_of (monitors s) i = Some m" and "enabled m \<or> f"
  shows "alerted (run_events (drive (length (inflight s)) io 1) (launch i f now s)) =
           alerted s @ alerts (checkOnce m f now io)"
proof -
  let ?s1 = "launch i f now s"
  have 1: "length (inflight s) < length (inflight ?s1)"
    using assms by (auto simp add: launch_def)
  have 2: "inflight ?s1 ! length (inflight s) =
      \<lparr> task_mon = i, task_forced = f, task_started = now, task_attempt = 1,
        task_phase = AwaitGet \<rparr>"
    using assms by (auto simp add: launch_def)
  have 3: "map_of (monitors ?s1) i = Some m" and 4: "alerted ?s1 = alerted s"
    using assms by (auto simp add: launch_def)
  from task_alerts_checkLoop[OF 1 2 one_le_MAX 3, of io]
  show ?thesis by (simp only: checkOnce_runs[OF assms(2)] 4)
qed

section \<open>A probe whose attempts all fail at the transport\<close>

text \<open>
  C5, as the code has it. Take a probe that runs (the monitor is enabled or the check is
  forced) and is resumed at each of its \<open>await\<close>s with no other event in between, on a
  monitor with \<open>retryCount = 0\<close> and at most 200 points of history, and whose three
  attempts all throw. It leaves in the registry a monitor with \<open>lastStatus = 0\<close>,
  \<open>retryCount = 1\<close> and the third error's message in \<open>lastError\<close>. It pushes exactly one
  point, that of the third attempt, with status 0 and the message in \<open>error\<close>, and the
  history is then the last 200 of the old history followed by that point.
\<close>

theorem transport_failure_probe:
  assumes "map_of (monitors s) i = Some m" and "enabled m \<or> isForced"
    and "retryCount m = 0" and "length (history m) \<le> 200"
    and "result (io 1) = Thrown e1" and "result (io 2) = Thrown e2" and "result (io 3) = Thrown e3"
  shows "map_of (monitors (run_events (drive (length (inflight s)) io 1) (launch i isForced now s))) i
           = Some (mon (checkOnce m isForced now io)) \<and>
         lastStatus (mon (checkOnce m isForced now io)) = Some 0 \<and>
         retryCount (mon (checkOnce m isForced now io)) = 1 \<and>
         lastError (mon (checkOnce m isForced now io)) = Some e3 \<and>
         pushed (checkOnce m isForced now io) = [failPoint isForced now (io 3) 3 e3] \<and>
         history (mon (checkOnce m isForced now io)) =
           slice_last 200 (history m @ [failPoint isForced now (io 3) 3 e3]) \<and>
         status (failPoint isForced now (io 3) 3 e3) = 0 \<and>
         attempt (failPoint isForced now (io 3) 3 e3) = 3 \<and>
         error (failPoint isForced now (io 3) 3 e3) = Some e3"
proof -
  have 3: "3 = MAX_RETRIES" by (simp add: MAX_RETRIES_def)
  have eq: "checkOnce m isForced now io = onThrown isForced now (io 3) 3 e3 (initRun m)"
    using assms(2) checkLoop_all_thrown[OF assms(5-7)]
    by (auto simp add: checkOnce_def)
  have "map_of (monitors (run_events (drive (length (inflight s)) io 1) (launch i isForced now s))) i
           = Some (mon (checkOnce m isForced now io))"
    by (rule launched_check_is_checkOnce[OF assms(1,2)])
  moreover have "history (mon (checkOnce m isForced now io)) =
           slice_last 200 (history m @ [failPoint isForced now (io 3) 3 e3])"
    unfolding eq using assms(4)
    by (simp add: onThrown_last[OF 3] initRun_def pushHistory_slice)
  ultimately show ?thesis
    unfolding eq using assms(3)
    by (simp add: onThrown_last[OF 3] initRun_def failPoint_sel)
qed

text \<open>
  The claim's "retryCount equals 1" fails for a probe that overlaps another probe of the
  same monitor, which the scheduler allows: the second of two overlapping probes starts
  on a monitor with \<open>retryCount = 0\<close>, all its attempts time out, and after its third
  attempt \<open>retryCount\<close> is 2, the first probe's terminal attempt having been recorded in
  between.
\<close>

theorem transport_failure_counterexample:
  "map_option retryCount
     (map_of (monitors (run_events (take 3 overlap_events) server0)) ''a'') = Some 0 \<and>
   map (\<lambda>tk. (task_started tk, task_attempt tk, task_phase tk))
     (inflight (run_events (take 3 overlap_events) server0)) =
     [(0, 1, AwaitDelay), (5000, 1, AwaitGet)] \<and>
   map (\<lambda>tk. (task_started tk, task_attempt tk, task_phase tk))
     (inflight (run_events overlap_events server0)) =
     [(0, 3, AwaitSave), (5000, 3, AwaitSave)] \<and>
   map_option (\<lambda>m. (retryCount m, map attempt (history m), map status (history m)))
     (map_of (monitors (run_events overlap_events server0)) ''a'') = Some (2, [3, 3], [0, 0])"
  by (simp add: overlap_events_def run_events_def server0_def mon0_def launch_def resumeGet_def
      attemptRun_def nextPhase_def script_def MAX_RETRIES_def onThrown_def failPoint_def
      initRun_def pushHistory_def Let_def)

theorem transport_failure_probe_witness:
  "map_of (monitors server0) ''a'' = Some mon0 \<and> (enabled mon0 \<or> False) \<and>
   retryCount mon0 = 0 \<and> length (history mon0) \<le> 200 \<and>
   result (script [] 1) = Thrown ''timeout'' \<and> result (script [] 2) = Thrown ''timeout'' \<and>
   result (script [] 3) = Thrown ''timeout'' \<and>
   map_option (\<lambda>m. (lastStatus m, retryCount m, lastError m, history m))
     (map_of (monitors (run_events (drive 0 (script []) 1) (launch ''a'' False 0 server0))) ''a'') =
     Some (Some 0, 1, Some ''timeout'',
           [\<lparr> t = 3001, up = False, status = 0, ms = 3000, attempt = 3, forced = False,
              error = Some ''timeout'' \<rparr>])"
proof -
  have a: "map_of (monitors server0) ''a'' = Some mon0" "enabled mon0 \<or> False"
    "retryCount mon0 = 0" "length (history mon0) \<le> 200"
    by (simp_all add: server0_def mon0_def)
  have b: "result (script [] 1) = Thrown ''timeout''" "result (script [] 2) = Thrown ''timeout''"
    "result (script [] 3) = Thrown ''timeout''" by (simp_all add: script_def)
  have c: "slice_last 200 (history mon0 @ [failPoint False 0 (script [] 3) 3 ''timeout'']) =
     [\<lparr> t = 3001, up = False, status = 0, ms = 3000, attempt = 3, forced = False,
        error = Some ''timeout'' \<rparr>]"
    by (simp add: slice_last_def failPoint_def script_def mon0_def)
  have l: "length (inflight server0) = 0" by (simp add: server0_def)
  note g = transport_failure_probe[OF a b, of 0, unfolded l c]
  show ?thesis
    using a b g by simp
qed

section \<open>The guard on disabled monitors\<close>

text \<open>The loop never reads \<open>enabled\<close>: the flag rides along.\<close>

lemma onResponse_enabled_indep:
  "onResponse f s a n st (r \<lparr> mon := (mon r) \<lparr> enabled := e \<rparr> \<rparr>) =
     (onResponse f s a n st r)
       \<lparr> mon := (mon (onResponse f s a n st r)) \<lparr> enabled := e \<rparr> \<rparr>"
  by (simp add: onResponse_def Let_def wasUpOf_def triggerAlert_def nameOrUrl_def
      split: option.splits)

lemma onThrown_enabled_indep:
  "onThrown f s a n msg (r \<lparr> mon := (mon r) \<lparr> enabled := e \<rparr> \<rparr>) =
     (onThrown f s a n msg r)
       \<lparr> mon := (mon (onThrown f s a n msg r)) \<lparr> enabled := e \<rparr> \<rparr>"
  by (simp add: onThrown_def Let_def wasUpOf_def triggerAlert_def nameOrUrl_def
      split: option.splits)

lemma checkLoop_enabled_indep:
  "checkLoop f s io n (r \<lparr> mon := (mon r) \<lparr> enabled := e \<rparr> \<rparr>) =
     (checkLoop f s io n r) \<lparr> mon := (mon (checkLoop f s io n r)) \<lparr> enabled := e \<rparr> \<rparr>"
proof (induction f s io n r rule: checkLoop.induct)
  case (1 f s io n r)
  let ?r = "r \<lparr> mon := (mon r) \<lparr> enabled := e \<rparr> \<rparr>"
  show ?case
  proof (cases "n \<le> MAX_RETRIES")
    case False
    then show ?thesis by (simp add: checkLoop_exit)
  next
    case le: True
    show ?thesis
    proof (cases "result (io n)")
      case (Response st)
      show ?thesis
      proof (cases "isUpStatus st \<or> n = MAX_RETRIES")
        case True
        then show ?thesis
          using le Response
          by (simp add: checkLoop.simps[of f s io n r] checkLoop.simps[of f s io n ?r]
              onResponse_enabled_indep)
      next
        case False
        from "1.IH"(1)[OF le Response False] le Response False
        show ?thesis
          by (simp add: checkLoop.simps[of f s io n r] checkLoop.simps[of f s io n ?r]
              onResponse_enabled_indep)
      qed
    next
      case (Thrown msg)
      from "1.IH"(2)[OF le Thrown] le Thrown
      show ?thesis
        by (simp add: checkLoop.simps[of f s io n r] checkLoop.simps[of f s io n ?r]
            onThrown_enabled_indep)
    qed
  qed
qed

lemma forced_check_ignores_enabled:
  "checkOnce m True s io =
     (checkOnce (m \<lparr> enabled := True \<rparr>) True s io)
       \<lparr> mon := (mon (checkOnce (m \<lparr> enabled := True \<rparr>) True s io)) \<lparr> enabled := enabled m \<rparr> \<rparr>"
proof -
  have "initRun m = (initRun (m \<lparr> enabled := True \<rparr>))
      \<lparr> mon := (mon (initRun (m \<lparr> enabled := True \<rparr>))) \<lparr> enabled := enabled m \<rparr> \<rparr>"
    by (simp add: initRun_def)
  then have "checkLoop True s io 1 (initRun m) =
      (checkLoop True s io 1 (initRun (m \<lparr> enabled := True \<rparr>)))
        \<lparr> mon := (mon (checkLoop True s io 1 (initRun (m \<lparr> enabled := True \<rparr>))))
                 \<lparr> enabled := enabled m \<rparr> \<rparr>"
    by (simp only: checkLoop_enabled_indep)
  then show ?thesis by (simp add: checkOnce_def)
qed

text \<open>
  C9. On a monitor with \<open>enabled = false\<close> an unforced check returns at once: the
  monitor is as it was and nothing is pushed, and a tick of its interval or an unforced
  start leaves the whole server as it was. A forced check runs the whole retry loop,
  from attempt 1, and does to the monitor what it does to the same monitor enabled,
  the flag apart, which stays off. \<open>forceCheck(id)\<close> on such a monitor is that forced
  check, and answers true; started and resumed with no other event in between, the
  forced check leaves its result in the registry. It pushes at least one point, every
  point it pushes carries \<open>forced = true\<close>, the last point pushed is the last of the
  monitor's history, and \<open>lastChecked\<close> is that point's time.
\<close>

theorem disabled_monitor_guard:
  assumes "\<not> enabled m"
  shows "checkOnce m False started io = initRun m \<and>
         (map_of (monitors s) i = Some m \<longrightarrow>
            launch i False started s = s \<and> step (TimerFires i started) s = s) \<and>
         checkOnce m True started io = checkLoop True started io 1 (initRun m) \<and>
         checkOnce m True started io =
           (checkOnce (m \<lparr> enabled := True \<rparr>) True started io)
             \<lparr> mon := (mon (checkOnce (m \<lparr> enabled := True \<rparr>) True started io))
                      \<lparr> enabled := False \<rparr> \<rparr> \<and>
         (map_of reg i = Some m \<longrightarrow>
            forceCheck i w reg =
              (AList.update i (mon (checkOnce m True (fst (w i)) (snd (w i)))) reg, True)) \<and>
         (map_of (monitors s) i = Some m \<longrightarrow>
            map_of (monitors (run_events (drive (length (inflight s)) io 1)
                                (launch i True started s))) i =
              Some (mon (checkOnce m True started io))) \<and>
         pushed (checkOnce m True started io) \<noteq> [] \<and>
         (\<forall>p\<in>set (pushed (checkOnce m True started io)). forced p) \<and>
         history (mon (checkOnce m True started io)) \<noteq> [] \<and>
         last (history (mon (checkOnce m True started io))) =
           last (pushed (checkOnce m True started io)) \<and>
         lastChecked (mon (checkOnce m True started io)) =
           Some (t (last (pushed (checkOnce m True started io)))) \<and>
         \<not> enabled (mon (checkOnce m True started io))"
proof -
  have skip: "checkOnce m False started io = initRun m"
    using assms by (simp add: checkOnce_def)
  have tick: "launch i False started s = s \<and> step (TimerFires i started) s = s"
    if "map_of (monitors s) i = Some m"
    using that assms by (simp add: launch_def)
  have run: "checkOnce m True started io = checkLoop True started io 1 (initRun m)"
    by (simp add: checkOnce_def)
  have same: "checkOnce m True started io =
           (checkOnce (m \<lparr> enabled := True \<rparr>) True started io)
             \<lparr> mon := (mon (checkOnce (m \<lparr> enabled := True \<rparr>) True started io))
                      \<lparr> enabled := False \<rparr> \<rparr>"
    using forced_check_ignores_enabled[of m started io] assms by simp
  have fc: "forceCheck i w reg =
              (AList.update i (mon (checkOnce m True (fst (w i)) (snd (w i)))) reg, True)"
    if "map_of reg i = Some m"
    using that by (simp add: forceCheck_def)
  have ev: "map_of (monitors (run_events (drive (length (inflight s)) io 1)
                                (launch i True started s))) i =
              Some (mon (checkOnce m True started io))"
    if "map_of (monitors s) i = Some m"
    by (rule launched_check_is_checkOnce[OF that]) simp
  have "\<forall>p\<in>set (pushed (initRun m)). forced p = True" "enabled (mon (initRun m)) = False"
    using assms by (simp_all add: initRun_def)
  from checkLoop_terminal[OF one_le_MAX this, of started io]
  have fin: "pushed (checkOnce m True started io) \<noteq> [] \<and>
         (\<forall>p\<in>set (pushed (checkOnce m True started io)). forced p) \<and>
         history (mon (checkOnce m True started io)) \<noteq> [] \<and>
         last (history (mon (checkOnce m True started io))) =
           last (pushed (checkOnce m True started io)) \<and>
         lastChecked (mon (checkOnce m True started io)) =
           Some (t (last (pushed (checkOnce m True started io)))) \<and>
         \<not> enabled (mon (checkOnce m True started io))"
    unfolding run by simp
  show ?thesis
    using skip tick run same fc ev fin by (intro conjI impI) blast+
qed

theorem disabled_monitor_guard_witness:
  "\<not> enabled mon_off \<and>
   map_of (monitors (server0 \<lparr> monitors := [(''a'', mon_off)] \<rparr>)) ''a'' = Some mon_off \<and>
   mon (checkOnce mon_off False 0 (script [Response 200])) = mon_off \<and>
   pushed (checkOnce mon_off False 0 (script [Response 200])) = [] \<and>
   step (TimerFires ''a'' 0) (server0 \<lparr> monitors := [(''a'', mon_off)] \<rparr>) =
     server0 \<lparr> monitors := [(''a'', mon_off)] \<rparr> \<and>
   map (\<lambda>p. (attempt p, status p, forced p))
     (pushed (checkOnce mon_off True 0 (script [Response 500, Response 500, Response 500]))) =
     [(1, 500, True), (2, 500, True), (3, 500, True)] \<and>
   map_option (\<lambda>m. (enabled m, lastStatus m, lastChecked m, map attempt (history m)))
     (map_of (fst (forceCheck ''a'' (\<lambda>i. (0, script [Response 500, Response 500, Response 500]))
        [(''a'', mon_off)])) ''a'') = Some (False, Some 500, Some 3001, [1, 2, 3]) \<and>
   map_option (\<lambda>m. (enabled m, lastStatus m, lastChecked m, map attempt (history m)))
     (map_of (monitors (run_events (drive 0 (script [Response 500, Response 500, Response 500]) 1)
        (launch ''a'' True 0 (server0 \<lparr> monitors := [(''a'', mon_off)] \<rparr>)))) ''a'') =
     Some (False, Some 500, Some 3001, [1, 2, 3])"
proof -
  let ?io = "script [Response 500, Response 500, Response 500]"
  let ?s = "server0 \<lparr> monitors := [(''a'', mon_off)] \<rparr>"
  let ?w = "\<lambda>i :: string. (0 :: int, ?io)"
  have off: "\<not> enabled mon_off" by (simp add: mon_off_def)
  have h: "map_of (monitors ?s) ''a'' = Some mon_off" "map_of [(''a'', mon_off)] ''a'' = Some mon_off"
    by simp_all
  have l: "length (inflight ?s) = 0" by (simp add: server0_def)
  note g = disabled_monitor_guard[OF off, of 0 "script [Response 200]" ?s "''a''"]
  note g2 = disabled_monitor_guard[OF off, of 0 ?io ?s "''a''" "[(''a'', mon_off)]" ?w]
  have ev: "pushed (checkOnce mon_off True 0 ?io) =
      [\<lparr> t = 1001, up = False, status = 500, ms = 1000, attempt = 1, forced = True, error = None \<rparr>,
       \<lparr> t = 2001, up = False, status = 500, ms = 2000, attempt = 2, forced = True, error = None \<rparr>,
       \<lparr> t = 3001, up = False, status = 500, ms = 3000, attempt = 3, forced = True, error = None \<rparr>]"
    by (simp add: eval_defs)
  have mo: "(\<lambda>m. (enabled m, lastStatus m, lastChecked m, map attempt (history m)))
      (mon (checkOnce mon_off True 0 ?io)) = (False, Some 500, Some 3001, [1, 2, 3])"
    by (simp add: eval_defs)
  have 1: "checkOnce mon_off False 0 (script [Response 200]) = initRun mon_off"
    using g by (rule conjunct1)
  have 2: "step (TimerFires ''a'' 0) ?s = ?s" using g h(1) by blast
  have 3: "forceCheck ''a'' ?w [(''a'', mon_off)] =
      (AList.update ''a'' (mon (checkOnce mon_off True (fst (?w ''a'')) (snd (?w ''a''))))
         [(''a'', mon_off)], True)"
    using g2 h(2) by blast
  have 4: "map_of (monitors (run_events (drive (length (inflight ?s)) ?io 1)
      (launch ''a'' True 0 ?s))) ''a'' = Some (mon (checkOnce mon_off True 0 ?io))"
    using g2 h(1) by blast
  have f3: "map_option (\<lambda>m. (enabled m, lastStatus m, lastChecked m, map attempt (history m)))
     (map_of (fst (forceCheck ''a'' ?w [(''a'', mon_off)])) ''a'') =
       Some (False, Some 500, Some 3001, [1, 2, 3])"
    unfolding 3 using mo by simp
  have f4: "map_option (\<lambda>m. (enabled m, lastStatus m, lastChecked m, map attempt (history m)))
     (map_of (monitors (run_events (drive 0 ?io 1) (launch ''a'' True 0 ?s))) ''a'') =
       Some (False, Some 500, Some 3001, [1, 2, 3])"
    using 4 mo unfolding l by simp
  show ?thesis using off h(1) 2 f3 f4 unfolding 1 ev by (simp add: initRun_def)
qed

section \<open>The counter of consecutive failures\<close>

lemma MAX_3: "MAX_RETRIES = 3"
  by (simp add: MAX_RETRIES_def)

text \<open>The failure counter along the loop.\<close>

lemma checkLoop_failures:
  assumes "n \<le> MAX_RETRIES" and "length (pushed r) < n"
    and "consecutiveFailures (mon r) = c0 + length (pushed r)"
  shows "pushed (checkLoop f s io n r) \<noteq> [] \<and> length (pushed (checkLoop f s io n r)) \<le> 3 \<and>
         wasUpOf (mon (checkLoop f s io n r)) = up (last (pushed (checkLoop f s io n r))) \<and>
         consecutiveFailures (mon (checkLoop f s io n r)) =
           (if up (last (pushed (checkLoop f s io n r))) then 0
            else c0 + length (pushed (checkLoop f s io n r)))"
  (is "?Q (checkLoop f s io n r)")
proof (rule checkLoop_rule[where
      A = "\<lambda>n r. length (pushed r) < n \<and> consecutiveFailures (mon r) = c0 + length (pushed r)"
      and Q = ?Q, OF assms(1)])
  show "length (pushed r) < n \<and> consecutiveFailures (mon r) = c0 + length (pushed r)"
    using assms(2,3) by simp
next
  fix n st and r :: run
  assume "length (pushed r) < n \<and> consecutiveFailures (mon r) = c0 + length (pushed r)"
    and "\<not> isUpStatus st"
  then show "length (pushed (onResponse f s (io n) n st r)) < n + 1 \<and>
        consecutiveFailures (mon (onResponse f s (io n) n st r)) =
          c0 + length (pushed (onResponse f s (io n) n st r))"
    by (simp add: onResponse_pushed onResponse_mon)
next
  fix n st and r :: run
  assume "length (pushed r) < n \<and> consecutiveFailures (mon r) = c0 + length (pushed r)"
    and "n \<le> MAX_RETRIES"
  then show "?Q (onResponse f s (io n) n st r)"
    by (simp add: onResponse_pushed onResponse_mon respPoint_sel MAX_3 wasUpOf_def
        toNumber_def isUpStatus_def)
next
  fix n msg and r :: run
  assume "length (pushed r) < n \<and> consecutiveFailures (mon r) = c0 + length (pushed r)"
  then show "length (pushed r) < n + 1 \<and> consecutiveFailures (mon r) = c0 + length (pushed r)"
    by simp
next
  fix msg and r :: run
  assume "length (pushed r) < MAX_RETRIES \<and> consecutiveFailures (mon r) = c0 + length (pushed r)"
  then show "?Q (onThrown f s (io MAX_RETRIES) MAX_RETRIES msg r)"
    by (simp add: onThrown_last failPoint_sel MAX_3 wasUpOf_def toNumber_def)
qed

text \<open>
  C4, as the code has it. The counter changes per recorded attempt, whatever else runs
  in between: when a pending request of a check settles, a down response adds one to
  the \<open>consecutiveFailures\<close> the registry holds then, an up response sets it to zero, a
  throw adds one on the third attempt and leaves it alone on the first two; no other
  event changes a monitor. So a probe that runs and is resumed at each of its \<open>await\<close>s
  with no other event in between pushes between one and three points, the last of
  which classifies as \<open>lastStatus\<close> then does, and leaves the counter at zero when the
  terminal result is up, and at the earlier value plus the number of points the probe
  pushed otherwise.
\<close>

theorem consecutiveFailures_per_recorded_attempt:
  "(k < length (inflight s) \<and> task_phase (inflight s ! k) = AwaitGet \<and>
    map_of (monitors s) (task_mon (inflight s ! k)) = Some m0 \<longrightarrow>
      map_of (monitors (step (GetSettles k a) s)) =
        (map_of (monitors s))(task_mon (inflight s ! k) \<mapsto> mon (attemptRun (inflight s ! k) a m0)) \<and>
      consecutiveFailures (mon (attemptRun (inflight s ! k) a m0)) =
        (case result a of
           Response st \<Rightarrow> if isUpStatus st then 0 else consecutiveFailures m0 + 1
         | Thrown msg \<Rightarrow>
             if task_attempt (inflight s ! k) = MAX_RETRIES then consecutiveFailures m0 + 1
             else consecutiveFailures m0)) \<and>
   monitors (step (TimerFires j now) s) = monitors s \<and>
   monitors (step (DelayElapsed k) s) = monitors s \<and>
   monitors (step (SaveSettles k) s) = monitors s \<and>
   (map_of (monitors s) i = Some m \<and> (enabled m \<or> isForced) \<longrightarrow>
      map_of (monitors (run_events (drive (length (inflight s)) io 1)
                          (launch i isForced started s))) i =
        Some (mon (checkOnce m isForced started io)) \<and>
      pushed (checkOnce m isForced started io) \<noteq> [] \<and>
      length (pushed (checkOnce m isForced started io)) \<le> 3 \<and>
      wasUpOf (mon (checkOnce m isForced started io)) =
        up (last (pushed (checkOnce m isForced started io))) \<and>
      consecutiveFailures (mon (checkOnce m isForced started io)) =
        (if up (last (pushed (checkOnce m isForced started io))) then 0
         else consecutiveFailures m + length (pushed (checkOnce m isForced started io))))"
proof (intro conjI impI)
  assume p: "k < length (inflight s) \<and> task_phase (inflight s ! k) = AwaitGet \<and>
    map_of (monitors s) (task_mon (inflight s ! k)) = Some m0"
  then show "map_of (monitors (step (GetSettles k a) s)) =
        (map_of (monitors s))(task_mon (inflight s ! k) \<mapsto> mon (attemptRun (inflight s ! k) a m0))"
    by (intro settle_attempt(1)) simp_all
  show "consecutiveFailures (mon (attemptRun (inflight s ! k) a m0)) =
        (case result a of
           Response st \<Rightarrow> if isUpStatus st then 0 else consecutiveFailures m0 + 1
         | Thrown msg \<Rightarrow>
             if task_attempt (inflight s ! k) = MAX_RETRIES then consecutiveFailures m0 + 1
             else consecutiveFailures m0)"
    by (rule attemptRun_counters(1))
next
  assume r: "map_of (monitors s) i = Some m \<and> (enabled m \<or> isForced)"
  then have runs: "enabled m \<or> isForced" by simp
  show "map_of (monitors (run_events (drive (length (inflight s)) io 1)
                          (launch i isForced started s))) i =
        Some (mon (checkOnce m isForced started io))"
    using r by (intro launched_check_is_checkOnce) simp_all
  have "length (pushed (initRun m)) < 1"
    "consecutiveFailures (mon (initRun m)) = consecutiveFailures m + length (pushed (initRun m))"
    by (simp_all add: initRun_def)
  from checkLoop_failures[OF one_le_MAX this, of isForced started io]
  have g: "pushed (checkOnce m isForced started io) \<noteq> [] \<and>
         length (pushed (checkOnce m isForced started io)) \<le> 3 \<and>
         wasUpOf (mon (checkOnce m isForced started io)) =
           up (last (pushed (checkOnce m isForced started io))) \<and>
         consecutiveFailures (mon (checkOnce m isForced started io)) =
           (if up (last (pushed (checkOnce m isForced started io))) then 0
            else consecutiveFailures m + length (pushed (checkOnce m isForced started io)))"
    unfolding checkOnce_runs[OF runs] .
  from g show "pushed (checkOnce m isForced started io) \<noteq> []" by (rule conjunct1)
  from g show "length (pushed (checkOnce m isForced started io)) \<le> 3" by simp
  from g show "wasUpOf (mon (checkOnce m isForced started io)) =
           up (last (pushed (checkOnce m isForced started io)))" by simp
  from g show "consecutiveFailures (mon (checkOnce m isForced started io)) =
           (if up (last (pushed (checkOnce m isForced started io))) then 0
            else consecutiveFailures m + length (pushed (checkOnce m isForced started io)))"
    by (elim conjE)
qed (simp_all only: other_events_keep)

text \<open>
  The claim's "exactly once per probe" fails: three down responses in one probe raise
  the counter from 0 to 3.
\<close>

theorem consecutiveFailures_counterexample:
  "consecutiveFailures mon0 = 0 \<and>
   map status (pushed (checkOnce mon0 False 0 (script [Response 500, Response 500, Response 500])))
     = [500, 500, 500] \<and>
   consecutiveFailures (mon (checkOnce mon0 False 0 (script [Response 500, Response 500, Response 500])))
     = 3"
  by (simp add: eval_defs)

theorem consecutiveFailures_per_recorded_attempt_witness:
  "map_of (monitors server0) ''a'' = Some mon0 \<and> (enabled mon0 \<or> False) \<and>
   consecutiveFailures mon0 = 0 \<and>
   map_option consecutiveFailures
     (map_of (monitors (step (GetSettles 0 (script [Response 500] 1))
        (launch ''a'' False 0 server0))) ''a'') = Some 1 \<and>
   map up (pushed (checkOnce mon0 False 0 (script [Response 500, Response 503]))) =
     [False, False, False] \<and>
   map_option consecutiveFailures
     (map_of (monitors (run_events (drive 0 (script [Response 500, Response 503]) 1)
        (launch ''a'' False 0 server0))) ''a'') = Some 3"
proof -
  let ?io = "script [Response 500, Response 503]"
  let ?s1 = "launch ''a'' False 0 server0"
  let ?a = "script [Response 500] 1"
  have h: "map_of (monitors server0) ''a'' = Some mon0 \<and> (enabled mon0 \<or> False)"
    by (simp add: server0_def mon0_def)
  have c0: "consecutiveFailures mon0 = 0" by (simp add: mon0_def)
  have l: "length (inflight server0) = 0" by (simp add: server0_def)
  have p: "0 < length (inflight ?s1) \<and> task_phase (inflight ?s1 ! 0) = AwaitGet \<and>
      map_of (monitors ?s1) (task_mon (inflight ?s1 ! 0)) = Some mon0"
    by (simp add: launch_def server0_def mon0_def)
  have tm: "task_mon (inflight ?s1 ! 0) = ''a''" "task_attempt (inflight ?s1 ! 0) = 1"
    by (simp_all add: launch_def server0_def mon0_def)
  have ra: "result ?a = Response 500" "\<not> isUpStatus 500"
    by (simp_all add: script_def isUpStatus_def)
  from consecutiveFailures_per_recorded_attempt[of 0 ?s1 mon0 ?a] p
  have "map_of (monitors (step (GetSettles 0 ?a) ?s1)) =
        (map_of (monitors ?s1))(task_mon (inflight ?s1 ! 0) \<mapsto> mon (attemptRun (inflight ?s1 ! 0) ?a mon0)) \<and>
      consecutiveFailures (mon (attemptRun (inflight ?s1 ! 0) ?a mon0)) =
        (case result ?a of
           Response st \<Rightarrow> if isUpStatus st then 0 else consecutiveFailures mon0 + 1
         | Thrown msg \<Rightarrow>
             if task_attempt (inflight ?s1 ! 0) = MAX_RETRIES then consecutiveFailures mon0 + 1
             else consecutiveFailures mon0)"
    by blast
  then have one: "map_option consecutiveFailures (map_of (monitors (step (GetSettles 0 ?a) ?s1)) ''a'')
      = Some 1"
    unfolding tm using ra c0 by simp
  have ev: "map up (pushed (checkOnce mon0 False 0 ?io)) = [False, False, False]"
    by (simp add: eval_defs)
  then have len: "length (pushed (checkOnce mon0 False 0 ?io)) = 3"
    by (metis length_map length_Cons list.size(3) numeral_3_eq_3)
  have lst: "\<not> up (last (pushed (checkOnce mon0 False 0 ?io)))"
    using ev by (metis last_map last.simps list.map_disc_iff list.distinct(1))
  from consecutiveFailures_per_recorded_attempt[of _ server0 _ _ _ _ "''a''" mon0 False ?io 0] h
  have "map_of (monitors (run_events (drive (length (inflight server0)) ?io 1) ?s1)) ''a'' =
        Some (mon (checkOnce mon0 False 0 ?io)) \<and>
      consecutiveFailures (mon (checkOnce mon0 False 0 ?io)) =
        (if up (last (pushed (checkOnce mon0 False 0 ?io))) then 0
         else consecutiveFailures mon0 + length (pushed (checkOnce mon0 False 0 ?io)))"
    by blast
  then have three: "map_option consecutiveFailures
     (map_of (monitors (run_events (drive 0 ?io 1) ?s1)) ''a'') = Some 3"
    unfolding l using lst len c0 by simp
  show ?thesis using h c0 one ev three by simp
qed

section \<open>The retry counter\<close>

text \<open>The retry counter along the loop.\<close>

lemma checkLoop_retryCount:
  assumes "n \<le> MAX_RETRIES"
    and "(pushed r = [] \<and> retryCount (mon r) = c0) \<or>
         (pushed r \<noteq> [] \<and> (\<forall>p\<in>set (pushed r). error p = None) \<and> retryCount (mon r) = 0)"
  shows "retryCount (mon (checkLoop f s io n r)) =
           (if error (last (pushed (checkLoop f s io n r))) = None then 0
            else if \<exists>p\<in>set (pushed (checkLoop f s io n r)). error p = None then 1
            else c0 + 1)"
  (is "?Q (checkLoop f s io n r)")
proof (rule checkLoop_rule[where
      A = "\<lambda>n r. (pushed r = [] \<and> retryCount (mon r) = c0) \<or>
         (pushed r \<noteq> [] \<and> (\<forall>p\<in>set (pushed r). error p = None) \<and> retryCount (mon r) = 0)"
      and Q = ?Q, OF assms(1)])
  show "(pushed r = [] \<and> retryCount (mon r) = c0) \<or>
         (pushed r \<noteq> [] \<and> (\<forall>p\<in>set (pushed r). error p = None) \<and> retryCount (mon r) = 0)"
    by (rule assms(2))
next
  fix n st and r :: run
  assume "(pushed r = [] \<and> retryCount (mon r) = c0) \<or>
         (pushed r \<noteq> [] \<and> (\<forall>p\<in>set (pushed r). error p = None) \<and> retryCount (mon r) = 0)"
  then show "(pushed (onResponse f s (io n) n st r) = [] \<and>
          retryCount (mon (onResponse f s (io n) n st r)) = c0) \<or>
         (pushed (onResponse f s (io n) n st r) \<noteq> [] \<and>
          (\<forall>p\<in>set (pushed (onResponse f s (io n) n st r)). error p = None) \<and>
          retryCount (mon (onResponse f s (io n) n st r)) = 0)"
    by (auto simp add: onResponse_pushed onResponse_mon respPoint_sel)
next
  fix n st and r :: run
  show "?Q (onResponse f s (io n) n st r)"
    by (simp add: onResponse_pushed onResponse_mon respPoint_sel)
next
  fix n msg and r :: run
  assume "(pushed r = [] \<and> retryCount (mon r) = c0) \<or>
         (pushed r \<noteq> [] \<and> (\<forall>p\<in>set (pushed r). error p = None) \<and> retryCount (mon r) = 0)"
  then show "(pushed r = [] \<and> retryCount (mon r) = c0) \<or>
         (pushed r \<noteq> [] \<and> (\<forall>p\<in>set (pushed r). error p = None) \<and> retryCount (mon r) = 0)" .
next
  fix msg and r :: run
  assume "(pushed r = [] \<and> retryCount (mon r) = c0) \<or>
         (pushed r \<noteq> [] \<and> (\<forall>p\<in>set (pushed r). error p = None) \<and> retryCount (mon r) = 0)"
  then show "?Q (onThrown f s (io MAX_RETRIES) MAX_RETRIES msg r)"
    by (auto simp add: onThrown_last failPoint_sel)
qed

text \<open>A world in which every attempt gets a response.\<close>

lemma checkLoop_answered:
  assumes "n \<le> MAX_RETRIES" and "\<forall>k. \<exists>st. result (io k) = Response st"
  shows "retryCount (mon (checkLoop f s io n r)) = 0"
proof (rule checkLoop_rule[where A = "\<lambda>n r. True"
      and Q = "\<lambda>r. retryCount (mon r) = 0", OF assms(1)])
  fix msg and r :: run
  assume "result (io MAX_RETRIES) = Thrown msg"
  with assms(2) show "retryCount (mon (onThrown f s (io MAX_RETRIES) MAX_RETRIES msg r)) = 0"
    by (metis outcome.distinct(1))
qed (simp_all add: onResponse_mon)

lemma checkOnce_enabled: "enabled (mon (checkOnce m f s io)) = enabled m"
proof (cases "enabled m \<or> f")
  case True
  have "\<forall>p\<in>set (pushed (initRun m)). forced p = f" "enabled (mon (initRun m)) = enabled m"
    by (simp_all add: initRun_def)
  from checkLoop_terminal[OF one_le_MAX this, of s io]
  show ?thesis unfolding checkOnce_runs[OF True] by simp
next
  case False
  then show ?thesis by (simp add: checkOnce_def initRun_def)
qed

lemma checkMany_answered:
  assumes "cs \<noteq> []"
    and "\<forall>c\<in>set cs. (enabled (mon r) \<or> fst c) \<and> (\<forall>k. \<exists>st. result (snd (snd c) k) = Response st)"
  shows "retryCount (mon (checkMany r cs)) = 0"
  using assms
proof (induction r cs rule: checkMany.induct)
  case (1 r)
  then show ?case by simp
next
  case (2 r f s io cs)
  let ?r' = "\<lparr> mon = mon (checkOnce (mon r) f s io),
      pushed = pushed r @ pushed (checkOnce (mon r) f s io),
      alerts = alerts r @ alerts (checkOnce (mon r) f s io) \<rparr>"
  have step: "checkMany r ((f, s, io) # cs) = checkMany ?r' cs" by (simp add: Let_def)
  show ?case
  proof (cases "cs = []")
    case True
    have runs: "enabled (mon r) \<or> f" and ans: "\<forall>k. \<exists>st. result (io k) = Response st"
      using "2.prems"(2) by auto
    have "retryCount (mon (checkOnce (mon r) f s io)) = 0"
      unfolding checkOnce_runs[OF runs] by (rule checkLoop_answered[OF one_le_MAX ans])
    then show ?thesis unfolding step using True by simp
  next
    case False
    have "\<forall>c\<in>set cs. (enabled (mon ?r') \<or> fst c) \<and>
        (\<forall>k. \<exists>st. result (snd (snd c) k) = Response st)"
      using "2.prems"(2) by (simp add: checkOnce_enabled)
    from "2.IH"[OF refl False this] show ?thesis unfolding step .
  qed
qed

text \<open>
  C10, as the code has it. Every attempt that gets a response sets \<open>retryCount\<close> to 0,
  whatever the status and whatever else runs in between: when a pending request of a
  check settles with a response the counter in the registry becomes 0, a throw adds
  one on the third attempt and leaves it alone on the first two, and no other event
  changes a monitor. After a probe that runs and is resumed at each of its \<open>await\<close>s
  with no other event in between, the counter is 0 when the terminal attempt got a
  response; when the terminal attempt failed at the transport it is 1 if an earlier
  attempt of the same probe got a response, and the earlier value plus 1 otherwise. So
  it counts the terminal transport failures since the last attempt that got a
  response. After any non-empty sequence of probes that run one after the other and
  whose attempts all get a response (a target that always answers 500, say) it is 0.
\<close>

theorem retryCount_reset_by_any_response:
  "retryCount (mon (onResponse f s0 a0 n st r)) = 0 \<and>
   (k < length (inflight s) \<and> task_phase (inflight s ! k) = AwaitGet \<and>
    map_of (monitors s) (task_mon (inflight s ! k)) = Some m0 \<longrightarrow>
      map_of (monitors (step (GetSettles k a) s)) =
        (map_of (monitors s))(task_mon (inflight s ! k) \<mapsto> mon (attemptRun (inflight s ! k) a m0)) \<and>
      retryCount (mon (attemptRun (inflight s ! k) a m0)) =
        (case result a of
           Response st \<Rightarrow> 0
         | Thrown msg \<Rightarrow>
             if task_attempt (inflight s ! k) = MAX_RETRIES then retryCount m0 + 1
             else retryCount m0)) \<and>
   monitors (step (TimerFires j now) s) = monitors s \<and>
   monitors (step (DelayElapsed k) s) = monitors s \<and>
   monitors (step (SaveSettles k) s) = monitors s \<and>
   (map_of (monitors s) i = Some m \<and> (enabled m \<or> isForced) \<longrightarrow>
      map_of (monitors (run_events (drive (length (inflight s)) io 1)
                          (launch i isForced started s))) i =
        Some (mon (checkOnce m isForced started io)) \<and>
      retryCount (mon (checkOnce m isForced started io)) =
        (if error (last (pushed (checkOnce m isForced started io))) = None then 0
         else if \<exists>p\<in>set (pushed (checkOnce m isForced started io)). error p = None then 1
         else retryCount m + 1)) \<and>
   (cs \<noteq> [] \<and>
    (\<forall>c\<in>set cs. (enabled m \<or> fst c) \<and> (\<forall>k. \<exists>st. result (snd (snd c) k) = Response st)) \<longrightarrow>
      retryCount (mon (checkMany (initRun m) cs)) = 0)"
proof (intro conjI impI)
  show "retryCount (mon (onResponse f s0 a0 n st r)) = 0"
    by (simp add: onResponse_mon)
next
  assume p: "k < length (inflight s) \<and> task_phase (inflight s ! k) = AwaitGet \<and>
    map_of (monitors s) (task_mon (inflight s ! k)) = Some m0"
  then show "map_of (monitors (step (GetSettles k a) s)) =
        (map_of (monitors s))(task_mon (inflight s ! k) \<mapsto> mon (attemptRun (inflight s ! k) a m0))"
    by (intro settle_attempt(1)) simp_all
  show "retryCount (mon (attemptRun (inflight s ! k) a m0)) =
        (case result a of
           Response st \<Rightarrow> 0
         | Thrown msg \<Rightarrow>
             if task_attempt (inflight s ! k) = MAX_RETRIES then retryCount m0 + 1
             else retryCount m0)"
    by (rule attemptRun_counters(2))
next
  assume r: "map_of (monitors s) i = Some m \<and> (enabled m \<or> isForced)"
  then have runs: "enabled m \<or> isForced" by simp
  show "map_of (monitors (run_events (drive (length (inflight s)) io 1)
                          (launch i isForced started s))) i =
        Some (mon (checkOnce m isForced started io))"
    using r by (intro launched_check_is_checkOnce) simp_all
  have "(pushed (initRun m) = [] \<and> retryCount (mon (initRun m)) = retryCount m) \<or>
        (pushed (initRun m) \<noteq> [] \<and> (\<forall>p\<in>set (pushed (initRun m)). error p = None) \<and>
         retryCount (mon (initRun m)) = 0)"
    by (simp add: initRun_def)
  from checkLoop_retryCount[OF one_le_MAX this, of isForced started io]
  show "retryCount (mon (checkOnce m isForced started io)) =
        (if error (last (pushed (checkOnce m isForced started io))) = None then 0
         else if \<exists>p\<in>set (pushed (checkOnce m isForced started io)). error p = None then 1
         else retryCount m + 1)"
    unfolding checkOnce_runs[OF runs] .
next
  assume a: "cs \<noteq> [] \<and>
    (\<forall>c\<in>set cs. (enabled m \<or> fst c) \<and> (\<forall>k. \<exists>st. result (snd (snd c) k) = Response st))"
  then have "\<forall>c\<in>set cs. (enabled (mon (initRun m)) \<or> fst c) \<and>
      (\<forall>k. \<exists>st. result (snd (snd c) k) = Response st)"
    by (simp add: initRun_def)
  with a show "retryCount (mon (checkMany (initRun m) cs)) = 0"
    by (intro checkMany_answered) simp_all
qed (simp_all only: other_events_keep)

text \<open>
  The claim's "counts consecutive probes whose terminal result was a transport failure"
  fails: of two probes in a row that both end in a transport failure, the second got a
  500 on its first attempt, and the counter is 1 after it.
\<close>

theorem retryCount_counterexample:
  "map (\<lambda>p. (attempt p, status p))
     (pushed (checkMany (initRun mon0) [(False, 0, script []), (False, 5000, script [Response 500])]))
     = [(3, 0), (1, 500), (3, 0)] \<and>
   retryCount (mon (checkMany (initRun mon0)
     [(False, 0, script []), (False, 5000, script [Response 500])])) = 1"
  by (simp add: eval_defs)

theorem retryCount_reset_by_any_response_witness:
  "retryCount (mon (onResponse False 0 (steady (Response 500) 1) 1 500 (initRun mon_failing))) = 0 \<and>
   map_of (monitors (server0 \<lparr> monitors := [(''a'', mon_failing)] \<rparr>)) ''a'' = Some mon_failing \<and>
   (enabled mon_failing \<or> False) \<and> retryCount mon_failing = 2 \<and>
   map_option retryCount
     (map_of (monitors (step (GetSettles 0 (script [Response 500] 1))
        (launch ''a'' False 0 (server0 \<lparr> monitors := [(''a'', mon_failing)] \<rparr>)))) ''a'') = Some 0 \<and>
   map error (pushed (checkOnce mon_failing False 0 (script [Response 500]))) = [None, Some ''timeout''] \<and>
   map_option retryCount
     (map_of (monitors (run_events (drive 0 (script [Response 500]) 1)
        (launch ''a'' False 0 (server0 \<lparr> monitors := [(''a'', mon_failing)] \<rparr>)))) ''a'') = Some 1 \<and>
   [(False, 0, steady (Response 500)), (False, 5000, steady (Response 500))] \<noteq> [] \<and>
   result (steady (Response 500) 7) = Response 500 \<and>
   retryCount (mon (checkMany (initRun mon_failing)
       [(False, 0, steady (Response 500)), (False, 5000, steady (Response 500))])) = 0"
proof -
  let ?io = "script [Response 500]"
  let ?a = "script [Response 500] 1"
  let ?s = "server0 \<lparr> monitors := [(''a'', mon_failing)] \<rparr>"
  let ?s1 = "launch ''a'' False 0 ?s"
  let ?cs = "[(False, 0, steady (Response 500)), (False, 5000, steady (Response 500))]"
  note g = retryCount_reset_by_any_response[of False 0 "steady (Response 500) 1" 1 500
      "initRun mon_failing" _ ?s _ _ _ _ "''a''" mon_failing False ?io 0 ?cs]
  note g1 = retryCount_reset_by_any_response[of _ _ _ _ _ _ 0 ?s1 mon_failing ?a]
  have h: "map_of (monitors ?s) ''a'' = Some mon_failing \<and> (enabled mon_failing \<or> False)"
    by (simp add: server0_def mon_failing_def mon0_def)
  have rc: "retryCount mon_failing = 2" by (simp add: mon_failing_def)
  have l: "length (inflight ?s) = 0" by (simp add: server0_def)
  have p: "0 < length (inflight ?s1) \<and> task_phase (inflight ?s1 ! 0) = AwaitGet \<and>
      map_of (monitors ?s1) (task_mon (inflight ?s1 ! 0)) = Some mon_failing"
    by (simp add: launch_def server0_def mon_failing_def mon0_def)
  have tm: "task_mon (inflight ?s1 ! 0) = ''a''"
    by (simp add: launch_def server0_def mon_failing_def mon0_def)
  have ra: "result ?a = Response 500" by (simp add: script_def)
  from g1 p
  have "map_of (monitors (step (GetSettles 0 ?a) ?s1)) =
        (map_of (monitors ?s1))(task_mon (inflight ?s1 ! 0) \<mapsto> mon (attemptRun (inflight ?s1 ! 0) ?a mon_failing)) \<and>
      retryCount (mon (attemptRun (inflight ?s1 ! 0) ?a mon_failing)) =
        (case result ?a of
           Response st \<Rightarrow> 0
         | Thrown msg \<Rightarrow>
             if task_attempt (inflight ?s1 ! 0) = MAX_RETRIES then retryCount mon_failing + 1
             else retryCount mon_failing)"
    by blast
  then have zero: "map_option retryCount (map_of (monitors (step (GetSettles 0 ?a) ?s1)) ''a'') = Some 0"
    unfolding tm using ra by simp
  have ev: "pushed (checkOnce mon_failing False 0 ?io) =
      [\<lparr> t = 1001, up = False, status = 500, ms = 1000, attempt = 1, forced = False, error = None \<rparr>,
       \<lparr> t = 3001, up = False, status = 0, ms = 3000, attempt = 3, forced = False,
          error = Some ''timeout'' \<rparr>]"
    by (simp add: eval_defs)
  have hyp: "?cs \<noteq> [] \<and> (\<forall>c\<in>set ?cs. (enabled mon_failing \<or> fst c) \<and>
      (\<forall>k. \<exists>st. result (snd (snd c) k) = Response st))"
    by (simp add: mon_failing_def mon0_def steady_def)
  have r1: "retryCount (mon (onResponse False 0 (steady (Response 500) 1) 1 500 (initRun mon_failing))) = 0"
    using g by (rule conjunct1)
  have r2: "map_of (monitors (run_events (drive (length (inflight ?s)) ?io 1) ?s1)) ''a'' =
        Some (mon (checkOnce mon_failing False 0 ?io)) \<and>
      retryCount (mon (checkOnce mon_failing False 0 ?io)) =
        (if error (last (pushed (checkOnce mon_failing False 0 ?io))) = None then 0
         else if \<exists>p\<in>set (pushed (checkOnce mon_failing False 0 ?io)). error p = None then 1
         else retryCount mon_failing + 1)"
    using g h by blast
  have r3: "retryCount (mon (checkMany (initRun mon_failing) ?cs)) = 0"
    using g hyp by blast
  have r2': "map_option retryCount (map_of (monitors (run_events (drive 0 ?io 1) ?s1)) ''a'') = Some 1"
    using r2 unfolding ev l by simp
  show ?thesis using r1 h rc zero r2' r3 unfolding ev by (simp add: steady_def)
qed

section \<open>Alerts\<close>

lemma transitions_snoc:
  "transitions w (us @ [u]) =
     transitions w us @ (if last (w # us) \<noteq> u then [(last (w # us), u)] else [])"
  by (induction us arbitrary: w) auto

lemma wasUpOf_onResponse: "wasUpOf (mon (onResponse f s a n st r)) = isUpStatus st"
  by (simp add: wasUpOf_def onResponse_mon toNumber_def isUpStatus_def)

lemma alertTrace_onResponse:
  assumes "alertTrace w0 r"
  shows "alertTrace w0 (onResponse f s a n st r)"
proof -
  from assms have tr: "map (\<lambda>a. (wasUp a, nowUp a)) (alerts r) = transitions w0 (map up (pushed r))"
    and w: "wasUpOf (mon r) = last (w0 # map up (pushed r))"
    by (simp_all add: alertTrace_def)
  have "map (\<lambda>a. (wasUp a, nowUp a)) (alerts (onResponse f s a n st r)) =
        transitions w0 (map up (pushed r) @ [isUpStatus st])"
    unfolding transitions_snoc onResponse_alerts w[symmetric]
    by (simp add: tr triggerAlert_sel)
  then show ?thesis
    by (simp add: alertTrace_def onResponse_pushed respPoint_sel wasUpOf_onResponse)
qed

lemma alertTrace_onThrown:
  assumes "alertTrace w0 r"
  shows "alertTrace w0 (onThrown f s a n msg r)"
proof (cases "n = MAX_RETRIES")
  case True
  from assms have tr: "map (\<lambda>a. (wasUp a, nowUp a)) (alerts r) = transitions w0 (map up (pushed r))"
    and w: "wasUpOf (mon r) = last (w0 # map up (pushed r))"
    by (simp_all add: alertTrace_def)
  have "map (\<lambda>a. (wasUp a, nowUp a)) (alerts (onThrown f s a n msg r)) =
        transitions w0 (map up (pushed r) @ [False])"
    unfolding transitions_snoc onThrown_alerts[OF True] w[symmetric]
    by (simp add: tr triggerAlert_sel)
  moreover have "\<not> wasUpOf (mon (onThrown f s a n msg r))"
    by (simp add: wasUpOf_def onThrown_last[OF True] toNumber_def)
  ultimately show ?thesis
    by (simp add: alertTrace_def onThrown_last[OF True] failPoint_sel)
next
  case False
  then show ?thesis using assms by (simp add: onThrown_skip)
qed

lemma alertTrace_checkOnce: "alertTrace (wasUpOf m) (checkOnce m f s io)"
proof -
  have init: "alertTrace (wasUpOf m) (initRun m)"
    by (simp add: alertTrace_def initRun_def)
  have "alertTrace (wasUpOf m) (checkLoop f s io 1 (initRun m))"
    by (rule checkLoop_preserves[where P = "alertTrace (wasUpOf m)", OF init])
      (auto intro: alertTrace_onResponse alertTrace_onThrown)
  with init show ?thesis by (simp add: checkOnce_def)
qed

lemma transitions_all_down: "\<not> w \<Longrightarrow> \<forall>u\<in>set us. \<not> u \<Longrightarrow> transitions w us = []"
  by (induction us arbitrary: w) auto

text \<open>
  C3, as the code has it. \<open>wasUp\<close> is taken from \<open>lastStatus\<close> before each recorded
  attempt overwrites it, and an alert is emitted for exactly those recorded attempts
  (every response, and the transport failure of the last attempt) whose classification
  differs from it, whatever else runs in between: when a pending request of a check
  settles, the alerts grow by that attempt's alert, judged on the monitor the registry
  holds then, and no other event emits an alert. So the alerts of a check that runs and
  is resumed at each of its \<open>await\<close>s with no other event in between are the changes of
  classification along the points it pushed, starting from the monitor's
  classification before the check. In particular such a check all of whose points are
  down, on a monitor that was down, emits no alert.
\<close>

theorem alert_per_recorded_attempt:
  "(k < length (inflight s) \<and> task_phase (inflight s ! k) = AwaitGet \<and>
    map_of (monitors s) (task_mon (inflight s ! k)) = Some m0 \<longrightarrow>
      alerted (step (GetSettles k a) s) = alerted s @ alerts (attemptRun (inflight s ! k) a m0) \<and>
      map (\<lambda>x. (wasUp x, nowUp x)) (alerts (attemptRun (inflight s ! k) a m0)) =
        (case result a of
           Response st \<Rightarrow>
             if wasUpOf m0 \<noteq> isUpStatus st then [(wasUpOf m0, isUpStatus st)] else []
         | Thrown msg \<Rightarrow>
             if task_attempt (inflight s ! k) = MAX_RETRIES \<and> wasUpOf m0 then [(True, False)]
             else [])) \<and>
   alerted (step (TimerFires j now) s) = alerted s \<and>
   alerted (step (DelayElapsed k) s) = alerted s \<and>
   alerted (step (SaveSettles k) s) = alerted s \<and>
   (map_of (monitors s) i = Some m \<and> (enabled m \<or> isForced) \<longrightarrow>
      alerted (run_events (drive (length (inflight s)) io 1) (launch i isForced started s)) =
        alerted s @ alerts (checkOnce m isForced started io) \<and>
      map_of (monitors (run_events (drive (length (inflight s)) io 1)
                          (launch i isForced started s))) i =
        Some (mon (checkOnce m isForced started io)) \<and>
      map (\<lambda>x. (wasUp x, nowUp x)) (alerts (checkOnce m isForced started io)) =
        transitions (wasUpOf m) (map up (pushed (checkOnce m isForced started io))) \<and>
      (\<not> wasUpOf m \<and> (\<forall>p\<in>set (pushed (checkOnce m isForced started io)). \<not> up p) \<longrightarrow>
         alerted (run_events (drive (length (inflight s)) io 1) (launch i isForced started s)) =
           alerted s))"
proof (intro conjI impI)
  assume p: "k < length (inflight s) \<and> task_phase (inflight s ! k) = AwaitGet \<and>
    map_of (monitors s) (task_mon (inflight s ! k)) = Some m0"
  then show "alerted (step (GetSettles k a) s) =
      alerted s @ alerts (attemptRun (inflight s ! k) a m0)"
    by (intro settle_attempt(2)) simp_all
  show "map (\<lambda>x. (wasUp x, nowUp x)) (alerts (attemptRun (inflight s ! k) a m0)) =
        (case result a of
           Response st \<Rightarrow>
             if wasUpOf m0 \<noteq> isUpStatus st then [(wasUpOf m0, isUpStatus st)] else []
         | Thrown msg \<Rightarrow>
             if task_attempt (inflight s ! k) = MAX_RETRIES \<and> wasUpOf m0 then [(True, False)]
             else [])"
    by (rule attemptRun_alerts)
next
  assume r: "map_of (monitors s) i = Some m \<and> (enabled m \<or> isForced)"
  show al: "alerted (run_events (drive (length (inflight s)) io 1) (launch i isForced started s)) =
        alerted s @ alerts (checkOnce m isForced started io)"
    using r by (intro launched_check_alerts) simp_all
  show "map_of (monitors (run_events (drive (length (inflight s)) io 1)
                          (launch i isForced started s))) i =
        Some (mon (checkOnce m isForced started io))"
    using r by (intro launched_check_is_checkOnce) simp_all
  show tr: "map (\<lambda>x. (wasUp x, nowUp x)) (alerts (checkOnce m isForced started io)) =
     transitions (wasUpOf m) (map up (pushed (checkOnce m isForced started io)))"
    using alertTrace_checkOnce[of m isForced started io] by (simp add: alertTrace_def)
  assume d: "\<not> wasUpOf m \<and> (\<forall>p\<in>set (pushed (checkOnce m isForced started io)). \<not> up p)"
  have "transitions (wasUpOf m) (map up (pushed (checkOnce m isForced started io))) = []"
    by (rule transitions_all_down) (use d in auto)
  with tr have "alerts (checkOnce m isForced started io) = []" by simp
  with al show "alerted (run_events (drive (length (inflight s)) io 1)
      (launch i isForced started s)) = alerted s"
    by simp
qed (simp_all only: other_events_keep)

text \<open>
  The claim's "if and only if the classification changed over the probe" fails: a
  monitor that was up and whose probe gets 500 and then, on the retry, 200 is up
  before and after, and two alerts are emitted.
\<close>

theorem alert_counterexample:
  "wasUpOf mon_up \<and>
   wasUpOf (mon (checkOnce mon_up False 0 (script [Response 500, Response 200]))) \<and>
   map (\<lambda>a. (wasUp a, nowUp a)) (alerts (checkOnce mon_up False 0 (script [Response 500, Response 200])))
     = [(True, False), (False, True)]"
  by (simp add: eval_defs)

theorem alert_per_recorded_attempt_witness:
  "map_of (monitors (server0 \<lparr> monitors := [(''a'', mon_failing)] \<rparr>)) ''a'' = Some mon_failing \<and>
   (enabled mon_failing \<or> False) \<and> \<not> wasUpOf mon_failing \<and>
   map up (pushed (checkOnce mon_failing False 0 (script [Response 500, Response 503]))) =
     [False, False, False] \<and>
   alerted (run_events (drive 0 (script [Response 500, Response 503]) 1)
     (launch ''a'' False 0 (server0 \<lparr> monitors := [(''a'', mon_failing)] \<rparr>))) = [] \<and>
   map (\<lambda>x. (wasUp x, nowUp x))
     (alerted (run_events (drive 0 (script [Response 200]) 1)
        (launch ''a'' False 0 (server0 \<lparr> monitors := [(''a'', mon_failing)] \<rparr>)))) = [(False, True)] \<and>
   map (\<lambda>x. (wasUp x, nowUp x))
     (alerted (step (GetSettles 0 (script [Response 200] 1))
        (launch ''a'' False 0 (server0 \<lparr> monitors := [(''a'', mon_failing)] \<rparr>)))) = [(False, True)]"
proof -
  let ?io = "script [Response 500, Response 503]"
  let ?io2 = "script [Response 200]"
  let ?a = "script [Response 200] 1"
  let ?s = "server0 \<lparr> monitors := [(''a'', mon_failing)] \<rparr>"
  let ?s1 = "launch ''a'' False 0 ?s"
  have h: "map_of (monitors ?s) ''a'' = Some mon_failing \<and> (enabled mon_failing \<or> False)"
    by (simp add: server0_def mon_failing_def mon0_def)
  have l: "length (inflight ?s) = 0" "alerted ?s = []" "alerted ?s1 = []"
    by (simp_all add: server0_def launch_def mon_failing_def mon0_def)
  have down: "\<not> wasUpOf mon_failing" by (simp add: eval_defs)
  have ev: "map up (pushed (checkOnce mon_failing False 0 ?io)) = [False, False, False]"
    by (simp add: eval_defs)
  then have all: "\<forall>p\<in>set (pushed (checkOnce mon_failing False 0 ?io)). \<not> up p"
    by (metis (no_types, lifting) empty_iff empty_set imageI insert_iff list.simps(15) set_map)
  have a: "alerted (run_events (drive 0 ?io 1) ?s1) = []"
    using alert_per_recorded_attempt[of _ ?s _ _ _ _ "''a''" mon_failing False ?io 0] h down all
    unfolding l by blast
  have ev2: "map up (pushed (checkOnce mon_failing False 0 ?io2)) = [True]"
    by (simp add: eval_defs)
  have "alerted (run_events (drive (length (inflight ?s)) ?io2 1) ?s1) =
        alerted ?s @ alerts (checkOnce mon_failing False 0 ?io2) \<and>
      map (\<lambda>x. (wasUp x, nowUp x)) (alerts (checkOnce mon_failing False 0 ?io2)) =
        transitions (wasUpOf mon_failing) (map up (pushed (checkOnce mon_failing False 0 ?io2)))"
    using alert_per_recorded_attempt[of _ ?s _ _ _ _ "''a''" mon_failing False ?io2 0] h
    by blast
  then have b: "map (\<lambda>x. (wasUp x, nowUp x)) (alerted (run_events (drive 0 ?io2 1) ?s1)) =
      [(False, True)]"
    unfolding l ev2 using down by simp
  have p: "0 < length (inflight ?s1) \<and> task_phase (inflight ?s1 ! 0) = AwaitGet \<and>
      map_of (monitors ?s1) (task_mon (inflight ?s1 ! 0)) = Some mon_failing"
    by (simp add: launch_def server0_def mon_failing_def mon0_def)
  have ra: "result ?a = Response 200" "isUpStatus 200"
    by (simp_all add: script_def isUpStatus_def)
  have "alerted (step (GetSettles 0 ?a) ?s1) =
        alerted ?s1 @ alerts (attemptRun (inflight ?s1 ! 0) ?a mon_failing) \<and>
      map (\<lambda>x. (wasUp x, nowUp x)) (alerts (attemptRun (inflight ?s1 ! 0) ?a mon_failing)) =
        (case result ?a of
           Response st \<Rightarrow>
             if wasUpOf mon_failing \<noteq> isUpStatus st then [(wasUpOf mon_failing, isUpStatus st)]
             else []
         | Thrown msg \<Rightarrow>
             if task_attempt (inflight ?s1 ! 0) = MAX_RETRIES \<and> wasUpOf mon_failing
             then [(True, False)] else [])"
    using alert_per_recorded_attempt[of 0 ?s1 mon_failing ?a] p by blast
  then have c: "map (\<lambda>x. (wasUp x, nowUp x)) (alerted (step (GetSettles 0 ?a) ?s1)) =
      [(False, True)]"
    unfolding l using ra down by simp
  show ?thesis using h down ev a b c by simp
qed

section \<open>The uptime percentage\<close>

lemma count_up: "count_list (map up h) True = length (filter up h)"
  by (induction h) auto

text \<open>
  C7. \<open>uptimeFromHistory\<close> is the specification's \<open>round(upCount/total * 1000)/10\<close>
  of the points' \<open>up\<close> flags, and 0 for the empty history; it is 0 on the empty
  history, 100 on a single up point and 50 on an up point followed by a down point.
\<close>

theorem uptimePct_formula:
  "uptimeFromHistory h = uptimePct_spec (map up h) \<and>
   uptimeFromHistory [] = 0 \<and>
   uptimeFromHistory [p \<lparr> up := True \<rparr>] = 100 \<and>
   uptimeFromHistory [p \<lparr> up := True \<rparr>, q \<lparr> up := False \<rparr>] = 50"
proof (intro conjI)
  show "uptimeFromHistory h = uptimePct_spec (map up h)"
  proof (cases h)
    case Nil
    then show ?thesis by (simp add: uptimeFromHistory_def uptimePct_spec_def)
  next
    case (Cons a list)
    have "uptimePct_spec (map up h) =
        of_int (round ((of_nat (count_list (map up h) True) / of_nat (length (map up h))) * 1000 :: rat)) / 10"
      using Cons by (simp add: uptimePct_spec_def)
    then show ?thesis
      using Cons by (simp only: count_up length_map uptimeFromHistory_def Math_round_def round_def) simp
  qed
next
  show "uptimeFromHistory [] = 0" by (simp add: uptimeFromHistory_def)
next
  show "uptimeFromHistory [p \<lparr> up := True \<rparr>] = 100"
    by (simp add: uptimeFromHistory_def Math_round_def floor_eq_iff)
next
  show "uptimeFromHistory [p \<lparr> up := True \<rparr>, q \<lparr> up := False \<rparr>] = 50"
    by (simp add: uptimeFromHistory_def Math_round_def floor_eq_iff)
qed

section \<open>The floor on the check interval\<close>

lemma monitors_launch: "monitors (launch i f now s) = monitors s"
  by (simp add: launch_def split: option.splits)

lemma monitors_stopTimer: "monitors (stopTimer i s) = monitors s"
  by (simp add: stopTimer_def)

lemma monitors_startTimer: "monitors (startTimer i now s) = monitors s"
  by (simp add: startTimer_def Let_def monitors_launch monitors_stopTimer split: option.splits)

lemma intervals_ok_update:
  "intervals_ok reg \<Longrightarrow> js_ge (intervalMs m) (Fin 2000) \<Longrightarrow> intervals_ok (AList.update k m reg)"
  unfolding intervals_ok_def by (induction reg) auto

lemma intervals_ok_lookup:
  "intervals_ok reg \<Longrightarrow> map_of reg k = Some m \<Longrightarrow> js_ge (intervalMs m) (Fin 2000)"
  unfolding intervals_ok_def by (induction reg) (auto split: if_splits)

lemma clamp_ge: "js_ge (if js_lt iv (Fin 2000) then Fin 2000 else iv) (Fin 2000) \<or> iv = NaN"
  by (cases iv) auto

lemma orDefault_not_NaN: "orDefault n (Fin d) \<noteq> NaN"
  by (simp add: orDefault_def)

lemma newMonitor_interval:
  "intervalMs (newMonitor body u newId) =
     (if js_lt (orDefault (c_intervalMs body) (Fin DEFAULT_INTERVAL_MS)) (Fin 2000)
      then Fin 2000 else orDefault (c_intervalMs body) (Fin DEFAULT_INTERVAL_MS))"
  by (simp add: newMonitor_def Let_def)

lemma newMonitor_floor: "js_ge (intervalMs (newMonitor body u newId)) (Fin 2000)"
  unfolding newMonitor_interval using clamp_ge orDefault_not_NaN by blast

lemma applyPatch_interval:
  "intervalMs (applyPatch body m) =
     (case p_intervalMs body of
        None \<Rightarrow> intervalMs m
      | Some iv \<Rightarrow> if isFinite iv \<and> js_ge iv (Fin 2000) then iv else intervalMs m)"
  by (simp add: applyPatch_def Let_def split: option.splits)

lemma applyPatch_floor:
  "js_ge (intervalMs m) (Fin 2000) \<Longrightarrow> js_ge (intervalMs (applyPatch body m)) (Fin 2000)"
  by (simp add: applyPatch_interval split: option.splits)

lemma createMonitor_accepted:
  assumes "c_url body = Some u" "u \<noteq> []"
  shows "snd (createMonitor body newId now s) = Inr (newMonitor body u newId)"
    and "monitors (fst (createMonitor body newId now s)) =
           AList.update newId (newMonitor body u newId) (monitors s)"
  using assms by (simp_all add: createMonitor_def Let_def monitors_startTimer)

lemma createMonitor_rejected:
  "c_url body = None \<or> c_url body = Some [] \<Longrightarrow> fst (createMonitor body newId now s) = s"
  by (auto simp add: createMonitor_def)

lemma patchMonitor_found:
  assumes "map_of (monitors s) i = Some m0"
  shows "snd (patchMonitor i body now s) = Inr (applyPatch body m0)"
    and "monitors (fst (patchMonitor i body now s)) =
           AList.update i (applyPatch body m0) (monitors s)"
  using assms by (simp_all add: patchMonitor_def Let_def monitors_startTimer monitors_stopTimer)

lemma patchMonitor_missing:
  "map_of (monitors s) i = None \<Longrightarrow> fst (patchMonitor i body now s) = s"
  by (simp add: patchMonitor_def)

lemma js_lt_not_ge: "js_lt a b \<Longrightarrow> \<not> js_ge a b"
  by (cases a; cases b) auto

lemma createMonitor_keeps_floor:
  assumes "intervals_ok (monitors s)"
  shows "intervals_ok (monitors (fst (createMonitor body newId now s)))"
proof (cases "c_url body = None \<or> c_url body = Some []")
  case True
  then show ?thesis using assms by (simp add: createMonitor_rejected)
next
  case False
  then obtain u where "c_url body = Some u" "u \<noteq> []" by auto
  then show ?thesis
    using assms by (simp add: createMonitor_accepted intervals_ok_update newMonitor_floor)
qed

lemma patchMonitor_keeps_floor:
  assumes "intervals_ok (monitors s)"
  shows "intervals_ok (monitors (fst (patchMonitor i body now s)))"
proof (cases "map_of (monitors s) i")
  case None
  then show ?thesis using assms by (simp add: patchMonitor_missing)
next
  case (Some m0)
  have "js_ge (intervalMs m0) (Fin 2000)" by (rule intervals_ok_lookup[OF assms Some])
  then show ?thesis
    using assms Some by (simp add: patchMonitor_found intervals_ok_update applyPatch_floor)
qed

text \<open>
  C6, as the code has it. A create whose URL is accepted and whose interval is a
  non-zero number below 2000 is not rejected and stores 2000. An update of a known
  monitor with an interval below 2000 is not rejected either, and leaves the stored
  interval as it was. If every interval of the registry is at least 2000, that is so
  after a create and after an update.
\<close>

theorem interval_floor:
  "(c_url body = Some u \<and> u \<noteq> [] \<and> c_intervalMs body = Fin x \<and> x \<noteq> 0 \<and> x < 2000 \<longrightarrow>
      (\<exists>m. snd (createMonitor body newId now s) = Inr m \<and>
           map_of (monitors (fst (createMonitor body newId now s))) newId = Some m \<and>
           intervalMs m = Fin 2000)) \<and>
   (map_of (monitors s) i = Some m0 \<and> p_intervalMs pbody = Some iv \<and> js_lt iv (Fin 2000) \<longrightarrow>
      (\<exists>m. snd (patchMonitor i pbody now s) = Inr m \<and>
           map_of (monitors (fst (patchMonitor i pbody now s))) i = Some m \<and>
           intervalMs m = intervalMs m0)) \<and>
   (intervals_ok (monitors s) \<longrightarrow>
      intervals_ok (monitors (fst (createMonitor body newId now s))) \<and>
      intervals_ok (monitors (fst (patchMonitor i pbody now s))))"
proof (intro conjI impI)
  assume a: "c_url body = Some u \<and> u \<noteq> [] \<and> c_intervalMs body = Fin x \<and> x \<noteq> 0 \<and> x < 2000"
  then have "orDefault (c_intervalMs body) (Fin DEFAULT_INTERVAL_MS) = Fin x"
    by (simp add: orDefault_def)
  with a createMonitor_accepted[of body u newId now s] newMonitor_interval[of body u newId]
  show "\<exists>m. snd (createMonitor body newId now s) = Inr m \<and>
           map_of (monitors (fst (createMonitor body newId now s))) newId = Some m \<and>
           intervalMs m = Fin 2000"
    by (simp add: AList.update_conv')
next
  assume a: "map_of (monitors s) i = Some m0 \<and> p_intervalMs pbody = Some iv \<and> js_lt iv (Fin 2000)"
  then have "\<not> js_ge iv (Fin 2000)" by (simp add: js_lt_not_ge)
  with a patchMonitor_found[of s i m0 pbody now] applyPatch_interval[of pbody m0]
  show "\<exists>m. snd (patchMonitor i pbody now s) = Inr m \<and>
           map_of (monitors (fst (patchMonitor i pbody now s))) i = Some m \<and>
           intervalMs m = intervalMs m0"
    by (simp add: AList.update_conv')
next
  assume "intervals_ok (monitors s)"
  then show "intervals_ok (monitors (fst (createMonitor body newId now s)))"
    by (rule createMonitor_keeps_floor)
next
  assume "intervals_ok (monitors s)"
  then show "intervals_ok (monitors (fst (patchMonitor i pbody now s)))"
    by (rule patchMonitor_keeps_floor)
qed

text \<open>
  The claim's "clamped up to the floor" fails for updates and for a zero interval: an
  update with 500 of a monitor whose interval is 5000 leaves 5000, and a create with 0
  stores the default 5000.
\<close>

theorem interval_floor_counterexample:
  "map_option intervalMs (map_of (monitors server0) ''a'') = Some (Fin 5000) \<and>
   map_option intervalMs (map_of (monitors (fst (patchMonitor ''a'' patch500 0 server0))) ''a'')
     = Some (Fin 5000) \<and>
   map_option intervalMs (map_of (monitors (fst
       (createMonitor (body500 \<lparr> c_intervalMs := Fin 0 \<rparr>) ''b'' 0 server0))) ''b'')
     = Some (Fin 5000)"
  by (simp add: server0_def mon0_def patch500_def body500_def patchMonitor_def createMonitor_def
      newMonitor_def applyPatch_def Let_def monitors_startTimer monitors_stopTimer orDefault_def
      DEFAULT_INTERVAL_MS_def isFinite_def ascii_def AList.update_conv')

theorem interval_floor_witness:
  "c_url body500 = Some (ascii ''example.com'') \<and> c_intervalMs body500 = Fin 500 \<and>
   map_option intervalMs (map_of (monitors (fst (createMonitor body500 ''b'' 0 server0))) ''b'')
     = Some (Fin 2000) \<and>
   map_of (monitors server0) ''a'' = Some mon0 \<and> p_intervalMs patch500 = Some (Fin 500) \<and>
   js_lt (Fin 500) (Fin 2000) \<and>
   map_option intervalMs (map_of (monitors (fst (patchMonitor ''a'' patch500 0 server0))) ''a'')
     = Some (intervalMs mon0) \<and>
   intervals_ok (monitors server0) \<and>
   intervals_ok (monitors (fst (createMonitor body500 ''b'' 0 server0))) \<and>
   intervals_ok (monitors (fst (patchMonitor ''a'' patch500 0 server0)))"
proof -
  note g = interval_floor[of body500 "ascii ''example.com''" 500 "''b''" 0 server0 "''a''" mon0 patch500 "Fin 500"]
  have h1: "c_url body500 = Some (ascii ''example.com'') \<and> ascii ''example.com'' \<noteq> [] \<and>
      c_intervalMs body500 = Fin 500 \<and> (500::rat) \<noteq> 0 \<and> (500::rat) < 2000"
    by (simp add: body500_def ascii_def)
  have h2: "map_of (monitors server0) ''a'' = Some mon0 \<and> p_intervalMs patch500 = Some (Fin 500) \<and>
      js_lt (Fin 500) (Fin 2000)"
    by (simp add: server0_def patch500_def)
  have h3: "intervals_ok (monitors server0)"
    by (simp add: intervals_ok_def server0_def mon0_def)
  from g h1 have "\<exists>m. snd (createMonitor body500 ''b'' 0 server0) = Inr m \<and>
           map_of (monitors (fst (createMonitor body500 ''b'' 0 server0))) ''b'' = Some m \<and>
           intervalMs m = Fin 2000" by blast
  then have c1: "map_option intervalMs (map_of (monitors (fst (createMonitor body500 ''b'' 0 server0))) ''b'')
     = Some (Fin 2000)" by auto
  from g h2 have "\<exists>m. snd (patchMonitor ''a'' patch500 0 server0) = Inr m \<and>
           map_of (monitors (fst (patchMonitor ''a'' patch500 0 server0))) ''a'' = Some m \<and>
           intervalMs m = intervalMs mon0" by blast
  then have c2: "map_option intervalMs (map_of (monitors (fst (patchMonitor ''a'' patch500 0 server0))) ''a'')
     = Some (intervalMs mon0)" by auto
  from g h3 have c3: "intervals_ok (monitors (fst (createMonitor body500 ''b'' 0 server0)))"
    "intervals_ok (monitors (fst (patchMonitor ''a'' patch500 0 server0)))" by blast+
  show ?thesis using h1 h2 h3 c1 c2 c3 by simp
qed

section \<open>The recovery sweep\<close>

lemma forceCheck_found:
  "map_of reg i = Some m \<Longrightarrow>
   fst (forceCheck i w reg) = AList.update i (mon (checkOnce m True (fst (w i)) (snd (w i)))) reg"
  by (simp add: forceCheck_def)

lemma update_keys_present: "map_of reg i = Some m \<Longrightarrow> map fst (AList.update i v reg) = map fst reg"
  by (induction reg) (auto split: if_splits)

lemma sweep_fold:
  assumes "distinct (map mon_id dms)" and "\<forall>m\<in>set dms. map_of reg (mon_id m) = Some m"
  shows "map fst (fold (\<lambda>m reg'. fst (forceCheck (mon_id m) w reg')) dms reg) = map fst reg \<and>
         map_of (fold (\<lambda>m reg'. fst (forceCheck (mon_id m) w reg')) dms reg) =
           (\<lambda>k. if k \<in> mon_id ` set dms
                then map_option (\<lambda>m. mon (checkOnce m True (fst (w k)) (snd (w k)))) (map_of reg k)
                else map_of reg k)"
  using assms
proof (induction dms arbitrary: reg)
  case Nil
  then show ?case by simp
next
  case (Cons m dms)
  let ?reg1 = "fst (forceCheck (mon_id m) w reg)"
  have found: "map_of reg (mon_id m) = Some m" using Cons.prems(2) by simp
  have reg1: "?reg1 = AList.update (mon_id m)
      (mon (checkOnce m True (fst (w (mon_id m))) (snd (w (mon_id m))))) reg"
    by (rule forceCheck_found[OF found])
  have keys1: "map fst ?reg1 = map fst reg"
    unfolding reg1 by (rule update_keys_present[OF found])
  have map1: "map_of ?reg1 = (map_of reg)(mon_id m \<mapsto>
      mon (checkOnce m True (fst (w (mon_id m))) (snd (w (mon_id m)))))"
    unfolding reg1 by (rule AList.update_conv')
  have notin: "mon_id m \<notin> mon_id ` set dms" and dist: "distinct (map mon_id dms)"
    using Cons.prems(1) by auto
  have rest: "\<forall>m'\<in>set dms. map_of ?reg1 (mon_id m') = Some m'"
  proof
    fix m' assume m': "m' \<in> set dms"
    then have "mon_id m' \<noteq> mon_id m" using notin by (metis imageI)
    moreover have "map_of reg (mon_id m') = Some m'" using Cons.prems(2) m' by simp
    ultimately show "map_of ?reg1 (mon_id m') = Some m'" by (simp add: map1)
  qed
  note IH = Cons.IH[OF dist rest]
  have "map_of (fold (\<lambda>m reg'. fst (forceCheck (mon_id m) w reg')) dms ?reg1) k =
        (if k \<in> mon_id ` set (m # dms)
         then map_option (\<lambda>m. mon (checkOnce m True (fst (w k)) (snd (w k)))) (map_of reg k)
         else map_of reg k)" for k
  proof (cases "k = mon_id m")
    case True
    then show ?thesis using IH notin found by (simp add: map1)
  next
    case False
    then show ?thesis using IH by (simp add: map1)
  qed
  then have "map_of (fold (\<lambda>m reg'. fst (forceCheck (mon_id m) w reg')) dms ?reg1) =
        (\<lambda>k. if k \<in> mon_id ` set (m # dms)
              then map_option (\<lambda>m. mon (checkOnce m True (fst (w k)) (snd (w k)))) (map_of reg k)
              else map_of reg k)"
    by (rule ext)
  moreover have "map fst (fold (\<lambda>m reg'. fst (forceCheck (mon_id m) w reg')) dms ?reg1) = map fst reg"
    using IH keys1 by simp
  ultimately show ?case by (simp only: fold_simps)
qed

lemma registry_ok_lookup:
  "registry_ok reg \<Longrightarrow> (k, m) \<in> set reg \<Longrightarrow> map_of reg k = Some m \<and> mon_id m = k"
  by (auto simp: registry_ok_def list_all_iff)

lemma registry_ok_ids: "registry_ok reg \<Longrightarrow> map mon_id (map snd reg) = map fst reg"
  by (induction reg) (auto simp: registry_ok_def)

lemma down_ids:
  "registry_ok reg \<Longrightarrow>
   map mon_id (filter isDownEnabled (map snd reg)) = map fst (filter (\<lambda>(k, m). isDownEnabled m) reg)"
  by (induction reg) (auto simp: registry_ok_def)

text \<open>\<open>forceCheckAllDown\<close> leaves the same monitors in the registry as a tick of the sweep.\<close>

lemma forceCheckAllDown_sweep:
  assumes "registry_ok reg" and "(k, m) \<in> set reg"
  shows "map_of (fst (forceCheckAllDown w reg)) k =
           Some (if isDownEnabled m then mon (checkOnce m True (fst (w k)) (snd (w k))) else m)"
    and "snd (forceCheckAllDown w reg) = length (filter (\<lambda>(k, m). isDownEnabled m) reg)"
proof -
  let ?g = "\<lambda>m. if isDownEnabled m
                then mon (checkOnce m True (fst (w (mon_id m))) (snd (w (mon_id m)))) else m"
  have "fst (forceCheckAllDown w reg) = map (\<lambda>(k, m). (k, ?g m)) reg"
    by (simp add: forceCheckAllDown_def split_def)
  then have "map_of (fst (forceCheckAllDown w reg)) = map_option ?g \<circ> map_of reg"
    by (simp add: map_of_map)
  moreover have "map_of reg k = Some m" "mon_id m = k"
    using registry_ok_lookup[OF assms] by simp_all
  ultimately show "map_of (fst (forceCheckAllDown w reg)) k =
           Some (if isDownEnabled m then mon (checkOnce m True (fst (w k)) (snd (w k))) else m)"
    by simp
  show "snd (forceCheckAllDown w reg) = length (filter (\<lambda>(k, m). isDownEnabled m) reg)"
    by (simp add: forceCheckAllDown_def filter_map o_def split_def)
qed

text \<open>
  C8. On a registry that stores every monitor under its own id, one tick of the sweep
  force-checks the monitors that pass its filter, which are the enabled ones whose
  \<open>lastStatus\<close> is outside [200, 400), and no other: the ids it checks are those of
  the filtered entries, in order; the registry keeps its keys; the entry of a monitor
  that passes the filter becomes the monitor after a forced check of it, and every
  other entry is the monitor it was, \<open>lastChecked\<close> included.
\<close>

theorem sweep_probes_exactly_the_down:
  assumes "registry_ok reg"
  shows "snd (sweep w reg) = map fst (filter (\<lambda>(k, m). isDownEnabled m) reg) \<and>
         map fst (fst (sweep w reg)) = map fst reg \<and>
         (\<forall>(k, m)\<in>set reg. map_of (fst (sweep w reg)) k =
            Some (if isDownEnabled m then mon (checkOnce m True (fst (w k)) (snd (w k))) else m)) \<and>
         (\<forall>m. isDownEnabled m = (enabled m \<and> \<not> wasUpOf m))"
proof -
  let ?down = "filter isDownEnabled (map snd reg)"
  have ids: "map mon_id ?down = map fst (filter (\<lambda>(k, m). isDownEnabled m) reg)"
    by (rule down_ids[OF assms])
  have dist: "distinct (map mon_id ?down)"
    unfolding ids using assms by (simp add: registry_ok_def distinct_map_filter)
  have look: "\<forall>m\<in>set ?down. map_of reg (mon_id m) = Some m"
    using registry_ok_lookup[OF assms] by auto
  note F = sweep_fold[OF dist look, of w]
  have frame: "map_of (fst (sweep w reg)) k =
      Some (if isDownEnabled m then mon (checkOnce m True (fst (w k)) (snd (w k))) else m)"
    if "(k, m) \<in> set reg" for k m
  proof -
    from registry_ok_lookup[OF assms that] have km: "map_of reg k = Some m" "mon_id m = k" by simp_all
    have "k \<in> mon_id ` set ?down \<longleftrightarrow> isDownEnabled m"
    proof
      assume "k \<in> mon_id ` set ?down"
      then obtain m' where m': "m' \<in> set ?down" "mon_id m' = k" by auto
      from look m'(1) have "map_of reg (mon_id m') = Some m'" by (rule bspec)
      with km m'(2) have "m' = m" by simp
      with m' show "isDownEnabled m" by simp
    next
      assume "isDownEnabled m"
      with that have "m \<in> set ?down" by force
      then have "mon_id m \<in> mon_id ` set ?down" by (rule imageI)
      then show "k \<in> mon_id ` set ?down" by (simp only: km(2))
    qed
    with F km show ?thesis by (simp add: sweep_def Let_def)
  qed
  have "\<forall>m. isDownEnabled m = (enabled m \<and> \<not> wasUpOf m)"
    by (auto simp: isDownEnabled_def wasUpOf_def)
  moreover have "snd (sweep w reg) = map fst (filter (\<lambda>(k, m). isDownEnabled m) reg)"
    using ids by (simp add: sweep_def Let_def)
  moreover have "map fst (fst (sweep w reg)) = map fst reg"
    using F by (simp add: sweep_def Let_def)
  moreover have "\<forall>(k, m)\<in>set reg. map_of (fst (sweep w reg)) k =
            Some (if isDownEnabled m then mon (checkOnce m True (fst (w k)) (snd (w k))) else m)"
    using frame by blast
  ultimately show ?thesis by (intro conjI)
qed

theorem sweep_probes_exactly_the_down_witness:
  "registry_ok reg3 \<and>
   map (\<lambda>(k, m). (k, enabled m, lastStatus m)) reg3 =
     [(''a'', True, Some 0), (''b'', True, Some 500), (''c'', True, Some 200)] \<and>
   snd (sweep world3 reg3) = [''a'', ''b''] \<and>
   map_option lastChecked (map_of reg3 ''c'') = Some (Some 1) \<and>
   map_option lastChecked (map_of (fst (sweep world3 reg3)) ''c'') = Some (Some 1) \<and>
   map_option lastChecked (map_of (fst (sweep world3 reg3)) ''a'') = Some (Some 1001) \<and>
   map_option lastChecked (map_of (fst (sweep world3 reg3)) ''b'') = Some (Some 1001)"
proof -
  let ?b = "mon0 \<lparr> mon_id := ''b'', lastStatus := Some 500, lastChecked := Some 1 \<rparr>"
  let ?c = "mon_up \<lparr> mon_id := ''c'' \<rparr>"
  have ok: "registry_ok reg3"
    by (simp add: registry_ok_def reg3_def mon_failing_def mon_up_def mon0_def)
  note g = sweep_probes_exactly_the_down[OF ok, of world3]
  have ids: "snd (sweep world3 reg3) = map fst (filter (\<lambda>(k, m). isDownEnabled m) reg3)"
    using g by (rule conjunct1)
  have frame: "\<forall>(k, m)\<in>set reg3. map_of (fst (sweep world3 reg3)) k =
      Some (if isDownEnabled m
            then mon (checkOnce m True (fst (world3 k)) (snd (world3 k))) else m)"
    using g by (elim conjE)
  have down: "isDownEnabled mon_failing" "isDownEnabled ?b" "\<not> isDownEnabled ?c"
    by (simp_all add: isDownEnabled_def toNumber_def mon_failing_def mon_up_def mon0_def)
  have mem: "(''a'', mon_failing) \<in> set reg3" "(''b'', ?b) \<in> set reg3" "(''c'', ?c) \<in> set reg3"
    by (simp_all add: reg3_def)
  have a: "map_of (fst (sweep world3 reg3)) ''a'' =
      Some (mon (checkOnce mon_failing True 0 (script [Response 200])))"
    using bspec[OF frame mem(1)] down(1) by (simp add: world3_def)
  have b: "map_of (fst (sweep world3 reg3)) ''b'' = Some (mon (checkOnce ?b True 0 (script [Response 200])))"
    using bspec[OF frame mem(2)] down(2) by (simp add: world3_def)
  have c: "map_of (fst (sweep world3 reg3)) ''c'' = Some ?c"
    using bspec[OF frame mem(3)] down(3) by simp
  have ea: "lastChecked (mon (checkOnce mon_failing True 0 (script [Response 200]))) = Some 1001"
    by (simp add: eval_defs)
  have eb: "lastChecked (mon (checkOnce ?b True 0 (script [Response 200]))) = Some 1001"
    by (simp add: eval_defs)
  have l: "map (\<lambda>(k, m). (k, enabled m, lastStatus m)) reg3 =
     [(''a'', True, Some 0), (''b'', True, Some 500), (''c'', True, Some 200)]"
    by (simp add: reg3_def mon_failing_def mon_up_def mon0_def)
  have i: "snd (sweep world3 reg3) = [''a'', ''b'']"
    unfolding ids using down by (simp add: reg3_def)
  have c0: "map_option lastChecked (map_of reg3 ''c'') = Some (Some 1)"
    by (simp add: reg3_def mon_up_def)
  show ?thesis
    unfolding a b c using ok l i c0 ea eb by (simp add: mon_up_def)
qed

section \<open>The scheduler's ticks\<close>

lemma launch_enabled:
  assumes "map_of (monitors s) i = Some m" "enabled m"
  shows "monitors (launch i f now s) = monitors s"
    and "timers (launch i f now s) = timers s"
    and "inFlight i (launch i f now s) = inFlight i s + 1"
  using assms by (simp_all add: launch_def inFlight_def)

lemma tick_launches:
  assumes "map_of (monitors s) i = Some m" "enabled m" "i \<in> set (timers s)"
  shows "monitors (step (TimerFires i now) s) = monitors s"
    and "timers (step (TimerFires i now) s) = timers s"
    and "inFlight i (step (TimerFires i now) s) = inFlight i s + 1"
  using assms by (simp_all add: launch_enabled)

lemma ticks_launch:
  assumes "map_of (monitors s) i = Some m" "enabled m" "i \<in> set (timers s)"
  shows "inFlight i (run_events (map (TimerFires i) nows) s) = inFlight i s + length nows"
  using assms
proof (induction nows arbitrary: s)
  case Nil
  then show ?case by (simp add: run_events_def)
next
  case (Cons now nows)
  let ?s1 = "step (TimerFires i now) s"
  have 1: "map_of (monitors ?s1) i = Some m" "i \<in> set (timers ?s1)"
    using tick_launches(1,2)[OF Cons.prems, of now] Cons.prems by simp_all
  have "inFlight i (run_events (map (TimerFires i) nows) ?s1) = inFlight i ?s1 + length nows"
    by (rule Cons.IH[OF 1(1) Cons.prems(2) 1(2)])
  then show ?case
    using tick_launches(3)[OF Cons.prems, of now] by (simp add: run_events_def)
qed

lemma count_list_update:
  "k < length xs \<Longrightarrow> P y = P (xs ! k) \<Longrightarrow> length (filter P (xs[k := y])) = length (filter P xs)"
proof (induction xs arbitrary: k)
  case Nil
  then show ?case by simp
next
  case (Cons x xs)
  then show ?case by (cases k) auto
qed

lemma resumeGet_task_mon: "task_mon (snd (resumeGet tk a reg)) = task_mon tk"
  by (simp add: resumeGet_def)

lemma settle_keeps_count:
  "inFlight i (step (GetSettles k a) s) = inFlight i s"
  "inFlight i (step (DelayElapsed k) s) = inFlight i s"
proof -
  show "inFlight i (step (GetSettles k a) s) = inFlight i s"
  proof (cases "k < length (inflight s) \<and> task_phase (inflight s ! k) = AwaitGet")
    case True
    obtain reg al tk where r: "resumeGet (inflight s ! k) a (monitors s) = ((reg, al), tk)"
      by (cases "resumeGet (inflight s ! k) a (monitors s)") auto
    then have "task_mon tk = task_mon (inflight s ! k)"
      using resumeGet_task_mon[of "inflight s ! k" a "monitors s"] by simp
    then show ?thesis
      using True r by (simp add: inFlight_def count_list_update)
  next
    case False
    then show ?thesis by auto
  qed
  show "inFlight i (step (DelayElapsed k) s) = inFlight i s"
    by (simp add: inFlight_def count_list_update)
qed

lemma launch_count: "inFlight i s \<le> inFlight i (launch j f now s)"
  by (simp add: launch_def inFlight_def split: option.splits)

lemma tick_count: "inFlight i s \<le> inFlight i (step (TimerFires j now) s)"
  by (simp add: launch_count)

lemma save_lowers_count: "inFlight i (step (SaveSettles k) s) \<le> inFlight i s"
proof (cases "k < length (inflight s) \<and> task_phase (inflight s ! k) = AwaitSave")
  case True
  have "inflight s = take k (inflight s) @ (inflight s ! k) # drop (Suc k) (inflight s)"
    using True by (simp add: id_take_nth_drop)
  then have "length (filter (\<lambda>tk. task_mon tk = i) (inflight s)) =
      length (filter (\<lambda>tk. task_mon tk = i) (take k (inflight s))) +
      length (filter (\<lambda>tk. task_mon tk = i) ((inflight s ! k) # drop (Suc k) (inflight s)))"
    by (metis filter_append length_append)
  then show ?thesis using True by (simp add: inFlight_def)
next
  case False
  then show ?thesis by auto
qed

text \<open>
  C1, as the code has it. \<open>startTimer\<close> and \<open>checkOnce\<close> keep no in-flight flag. A
  tick of the interval of an enabled monitor starts a check at once, whatever is in
  flight: \<open>n\<close> ticks that fire before any check returns leave \<open>n\<close> more calls of
  \<open>checkOnce\<close> in flight for that monitor. No tick is skipped or queued. Resuming a
  check at a response or after the retry delay leaves the number in flight as it is,
  a tick of any interval, of this monitor or of another, armed or not, never lowers
  it, and it goes down only when a check's final save returns.
\<close>

theorem ticks_start_overlapping_checks:
  "(map_of (monitors s) i = Some m \<and> enabled m \<and> i \<in> set (timers s) \<longrightarrow>
      inFlight i (run_events (map (TimerFires i) nows) s) = inFlight i s + length nows) \<and>
   inFlight i (step (GetSettles k a) s) = inFlight i s \<and>
   inFlight i (step (DelayElapsed k) s) = inFlight i s \<and>
   inFlight i (step (SaveSettles k) s) \<le> inFlight i s \<and>
   inFlight i s \<le> inFlight i (step (TimerFires j now) s)"
proof (intro conjI impI)
  assume "map_of (monitors s) i = Some m \<and> enabled m \<and> i \<in> set (timers s)"
  then show "inFlight i (run_events (map (TimerFires i) nows) s) = inFlight i s + length nows"
    using ticks_launch[of s i m nows] by blast
qed (simp_all only: settle_keeps_count save_lowers_count tick_count)

text \<open>
  The claim's "at most one check in flight" fails: with the default interval of 5000 ms
  the request timeout is 4000 ms, so a check whose first attempt times out is in its
  retry delay when the next tick fires; after two ticks with no response in between,
  two calls of \<open>checkOnce\<close> on the same monitor wait for their first request.
\<close>

theorem single_flight_counterexample:
  "inFlight ''a'' server0 = 0 \<and>
   inFlight ''a'' (run_events [TimerFires ''a'' 0, TimerFires ''a'' 5000] server0) = 2 \<and>
   map (\<lambda>tk. (task_mon tk, task_started tk, task_attempt tk, task_phase tk))
     (inflight (run_events [TimerFires ''a'' 0, TimerFires ''a'' 5000] server0)) =
     [(''a'', 0, 1, AwaitGet), (''a'', 5000, 1, AwaitGet)]"
  by (simp add: run_events_def server0_def mon0_def launch_def inFlight_def)

theorem ticks_start_overlapping_checks_witness:
  "map_of (monitors server0) ''a'' = Some mon0 \<and> enabled mon0 \<and> ''a'' \<in> set (timers server0) \<and>
   inFlight ''a'' server0 = 0 \<and>
   inFlight ''a'' (run_events (map (TimerFires ''a'') [0, 5000, 10000]) server0) = 3"
proof -
  have h: "map_of (monitors server0) ''a'' = Some mon0 \<and> enabled mon0 \<and> ''a'' \<in> set (timers server0)"
    by (simp add: server0_def mon0_def)
  have z: "inFlight ''a'' server0 = 0" by (simp add: inFlight_def server0_def)
  from ticks_start_overlapping_checks[of server0 "''a''" mon0 "[0, 5000, 10000]"] h
  have "inFlight ''a'' (run_events (map (TimerFires ''a'') [0, 5000, 10000]) server0) =
      inFlight ''a'' server0 + length [0, 5000, 10000 :: int]" by blast
  with h z show ?thesis by simp
qed

end
